theory Spec2Isabelle
  imports Complex_Main "HOL-Library.Sublist" "HOL-Library.Multiset"
begin

section \<open>Text: Python strings and the string methods the program uses\<close>

text \<open>
  A Python \<open>str\<close> is modelled as a \<^typ>\<open>string\<close>; each \<^typ>\<open>char\<close> stands for the code
  point of the same number (0 to 255). The character classes below are the ones Python 3
  uses for \<open>str\<close> patterns and \<open>str.strip\<close>, restricted to these code points.
\<close>

definition NL :: char where
  "NL = CHR 0x0A"

definition is_space :: "char \<Rightarrow> bool" where
  \<comment> \<open>\<open>str.isspace\<close> and the class \<open>\s\<close>\<close>
  "is_space c = (let n = (of_char c :: nat)
     in (9 \<le> n \<and> n \<le> 13) \<or> (28 \<le> n \<and> n \<le> 32) \<or> n = 133 \<or> n = 160)"

definition is_digit :: "char \<Rightarrow> bool" where
  \<comment> \<open>the class \<open>\d\<close>\<close>
  "is_digit c = (let n = (of_char c :: nat) in 48 \<le> n \<and> n \<le> 57)"

definition is_word :: "char \<Rightarrow> bool" where
  \<comment> \<open>the class \<open>\w\<close>: alphanumeric or underscore\<close>
  "is_word c = (let n = (of_char c :: nat)
     in (48 \<le> n \<and> n \<le> 57) \<or> (65 \<le> n \<and> n \<le> 90) \<or> n = 95 \<or> (97 \<le> n \<and> n \<le> 122)
        \<or> n = 170 \<or> n = 178 \<or> n = 179 \<or> n = 181 \<or> n = 185 \<or> n = 186
        \<or> (188 \<le> n \<and> n \<le> 190) \<or> (192 \<le> n \<and> n \<le> 214)
        \<or> (216 \<le> n \<and> n \<le> 246) \<or> (248 \<le> n \<and> n \<le> 255))"

fun split_char :: "char \<Rightarrow> string \<Rightarrow> string list" where
  \<comment> \<open>\<open>s.split(sep)\<close> for a separator of one character\<close>
  "split_char d [] = [[]]"
| "split_char d (c # cs) =
     (if c = d then [] # split_char d cs
      else (case split_char d cs of [] \<Rightarrow> [[c]] | l # ls \<Rightarrow> (c # l) # ls))"

definition strip :: "string \<Rightarrow> string" where
  \<comment> \<open>\<open>s.strip()\<close>\<close>
  "strip s = rev (dropWhile is_space (rev (dropWhile is_space s)))"

fun str_contains :: "string \<Rightarrow> string \<Rightarrow> bool" where
  \<comment> \<open>\<open>sub in s\<close> for two strings\<close>
  "str_contains sub [] = (sub = [])"
| "str_contains sub (c # cs) = (prefix sub (c # cs) \<or> str_contains sub cs)"

definition py_slice :: "'a list \<Rightarrow> nat \<Rightarrow> nat \<Rightarrow> 'a list" where
  \<comment> \<open>\<open>xs[lo:hi]\<close> for bounds that are not negative\<close>
  "py_slice xs lo hi = take (hi - lo) (drop lo xs)"

definition window :: "string list \<Rightarrow> nat \<Rightarrow> int \<Rightarrow> string list" where
  \<comment> \<open>\<open>lines[max(0, i-k):i]\<close>\<close>
  "window lines i k = py_slice lines (nat (max 0 (int i - k))) i"

section \<open>Regular expressions: the part of \<open>re\<close> the program uses\<close>

datatype regex =
    Eps
  | Lit char
  | Cls "char \<Rightarrow> bool"
  | WordB
  | Cat regex regex
  | Alt regex regex
  | Star regex

definition Plus :: "regex \<Rightarrow> regex" where
  "Plus r = Cat r (Star r)"

definition Opt :: "regex \<Rightarrow> regex" where
  "Opt r = Alt r Eps"

fun lits :: "string \<Rightarrow> regex" where
  "lits [] = Eps"
| "lits (c # cs) = Cat (Lit c) (lits cs)"

definition at_boundary :: "string \<Rightarrow> nat \<Rightarrow> bool" where
  \<comment> \<open>\<open>\b\<close>: exactly one of the characters before and after the position is a word character\<close>
  "at_boundary s p =
     ((0 < p \<and> p \<le> length s \<and> is_word (s ! (p - 1))) \<noteq> (p < length s \<and> is_word (s ! p)))"

primrec star_closure :: "nat \<Rightarrow> (nat list \<Rightarrow> nat list) \<Rightarrow> nat list \<Rightarrow> nat list" where
  "star_closure 0 f ps = ps"
| "star_closure (Suc n) f ps =
     (let new = filter (\<lambda>q. q \<notin> set ps) (remdups (f ps))
      in if new = [] then ps else star_closure n f (ps @ new))"

primrec adv :: "regex \<Rightarrow> string \<Rightarrow> nat list \<Rightarrow> nat list" where
  \<comment> \<open>the positions where a match of the expression can end, when it starts at one of \<open>ps\<close>\<close>
  "adv Eps s ps = ps"
| "adv (Lit c) s ps = map Suc (filter (\<lambda>p. p < length s \<and> s ! p = c) ps)"
| "adv (Cls f) s ps = map Suc (filter (\<lambda>p. p < length s \<and> f (s ! p)) ps)"
| "adv WordB s ps = filter (at_boundary s) ps"
| "adv (Cat a b) s ps = adv b s (adv a s ps)"
| "adv (Alt a b) s ps = remdups (adv a s ps @ adv b s ps)"
| "adv (Star a) s ps = star_closure (Suc (length s)) (adv a s) ps"

definition re_search :: "regex \<Rightarrow> string \<Rightarrow> bool" where
  \<comment> \<open>whether \<open>re.search(pattern, s)\<close> finds a match\<close>
  "re_search r s = (adv r s [0 ..< Suc (length s)] \<noteq> [])"

definition seq :: "regex list \<Rightarrow> regex" where
  "seq rs = foldr Cat rs Eps"

section \<open>The analysis result\<close>

record finding =
  line :: nat
  code :: string
  issue :: string
  suggestion :: string

text \<open>
  The result dictionary, in insertion order: Python dictionaries keep it, and the report
  is written in that order.
\<close>

type_synonym analysis = "(string \<times> finding list) list"

definition dict_append :: "analysis \<Rightarrow> string \<Rightarrow> finding \<Rightarrow> analysis" where
  \<comment> \<open>\<open>analysis[k].append(f)\<close>, for a key that is present\<close>
  "dict_append a k f = map (\<lambda>(k', fs). if k' = k then (k', fs @ [f]) else (k', fs)) a"

definition findings_of :: "analysis \<Rightarrow> string \<Rightarrow> finding list" where
  \<comment> \<open>\<open>analysis[k]\<close>\<close>
  "findings_of a k = (case map_of a k of Some fs \<Rightarrow> fs | None \<Rightarrow> [])"

definition mk_finding :: "nat \<Rightarrow> string \<Rightarrow> string \<Rightarrow> string \<Rightarrow> finding" where
  "mk_finding i l iss sug = \<lparr>line = i + 1, code = strip l, issue = iss, suggestion = sug\<rparr>"

section \<open>\<open>code_analyzer.analyze_cpp_code\<close>\<close>

definition raw_pointer_pattern :: regex where
  \<comment> \<open>\<open>\b(\w+)\s*\*\s*(\w+)\s*=\<close>\<close>
  "raw_pointer_pattern = seq [WordB, Plus (Cls is_word), Star (Cls is_space), Lit (CHR ''*''),
     Star (Cls is_space), Plus (Cls is_word), Star (Cls is_space), Lit (CHR ''='')]"

definition c_array_pattern :: regex where
  \<comment> \<open>\<open>\b(\w+)\s+(\w+)\[(\d+)\]\<close>\<close>
  "c_array_pattern = seq [WordB, Plus (Cls is_word), Plus (Cls is_space), Plus (Cls is_word),
     Lit (CHR ''[''), Plus (Cls is_digit), Lit (CHR '']'')]"

definition float_compare_pattern :: regex where
  \<comment> \<open>\<open>(==|!=)\s*\d*\.\d+f?\<close>\<close>
  "float_compare_pattern = seq [Alt (lits ''=='') (lits ''!=''), Star (Cls is_space),
     Star (Cls is_digit), Lit (CHR ''.''), Plus (Cls is_digit), Opt (Lit (CHR ''f''))]"

definition magic_number_pattern :: regex where
  \<comment> \<open>\<open>[^\.]\d+\.\d+f?\<close>\<close>
  "magic_number_pattern = seq [Cls (\<lambda>c. c \<noteq> CHR ''.''), Plus (Cls is_digit), Lit (CHR ''.''),
     Plus (Cls is_digit), Opt (Lit (CHR ''f''))]"

definition const_float_pattern :: regex where
  \<comment> \<open>\<open>const\s+float\<close>\<close>
  "const_float_pattern = seq [lits ''const'', Plus (Cls is_space), lits ''float'']"

definition declaration_pattern :: regex where
  \<comment> \<open>\<open>(\w+)\s+(\w+);\<close>\<close>
  "declaration_pattern = seq [Plus (Cls is_word), Plus (Cls is_space), Plus (Cls is_word),
     Lit (CHR '';'')]"

definition keyword_pattern :: regex where
  \<comment> \<open>\<open>class|struct|enum\<close>\<close>
  "keyword_pattern = Alt (lits ''class'') (Alt (lits ''struct'') (lits ''enum''))"

definition primitive_pattern :: "string \<Rightarrow> regex" where
  \<comment> \<open>\<open>{type_name}\s+\w+;\<close>\<close>
  "primitive_pattern type_name = seq [lits type_name, Plus (Cls is_space), Plus (Cls is_word),
     Lit (CHR '';'')]"

definition primitive_types :: "string list" where
  "primitive_types = [''int'', ''float'', ''double'', ''bool'', ''char'']"

definition raw_pointer_step :: "nat \<Rightarrow> string \<Rightarrow> analysis \<Rightarrow> analysis" where
  "raw_pointer_step i l a =
     (if re_search raw_pointer_pattern l \<and> \<not> str_contains ''std::'' l
         \<and> \<not> str_contains ''shared_ptr'' l \<and> \<not> str_contains ''unique_ptr'' l
      then dict_append a ''memory_management'' (mk_finding i l ''Raw pointer usage''
        ''Consider using smart pointers (std::unique_ptr or std::shared_ptr) for automatic memory management'')
      else a)"

definition c_array_step :: "nat \<Rightarrow> string \<Rightarrow> analysis \<Rightarrow> analysis" where
  "c_array_step i l a =
     (if re_search c_array_pattern l \<and> \<not> str_contains ''char'' l
      then dict_append a ''modern_cpp'' (mk_finding i l ''C-style array usage''
        ''Consider using std::array for fixed-size arrays or std::vector for dynamic arrays'')
      else a)"

definition index_loop_step :: "nat \<Rightarrow> string \<Rightarrow> analysis \<Rightarrow> analysis" where
  "index_loop_step i l a =
     (if str_contains ''for'' l \<and> str_contains ''; i < '' l \<and> str_contains ''.size()'' l
      then dict_append a ''modern_cpp'' (mk_finding i l ''Index-based loop over container''
        ''Consider using range-based for loop: for (auto& element : container)'')
      else a)"

text \<open>
  In the tests of a window, \<open>'for' in lines[max(0, i-5):i]\<close> has a list on the right
  of \<open>in\<close>: it asks whether one of these lines is the string \<open>for\<close>.
\<close>

definition sqrt_step :: "string list \<Rightarrow> nat \<Rightarrow> string \<Rightarrow> analysis \<Rightarrow> analysis" where
  "sqrt_step lines i l a =
     (if str_contains ''sqrt'' l
         \<and> (''for'' \<in> set (window lines i 5) \<or> ''while'' \<in> set (window lines i 5))
      then dict_append a ''performance_issues'' (mk_finding i l ''Expensive sqrt operation in loop''
        ''For magnitude comparisons, consider using squared magnitude (x*x + y*y) instead of sqrt(x*x + y*y)'')
      else a)"

definition string_ops_step :: "string list \<Rightarrow> nat \<Rightarrow> string \<Rightarrow> analysis \<Rightarrow> analysis" where
  \<comment> \<open>\<open>and\<close> binds tighter than \<open>or\<close> in the first test\<close>
  "string_ops_step lines i l a =
     (if (str_contains ''std::string'' l \<or> str_contains ''+='' l \<and> str_contains [CHR 0x22] l)
         \<and> (''update'' \<in> set (window lines i 10) \<or> ''render'' \<in> set (window lines i 10))
      then dict_append a ''performance_issues'' (mk_finding i l ''String operations in performance-critical code''
        ''String operations can be expensive. Consider moving string manipulations outside of update/render loops'')
      else a)"

definition performance_step :: "string list \<Rightarrow> nat \<Rightarrow> string \<Rightarrow> analysis \<Rightarrow> analysis" where
  \<comment> \<open>the body of the fourth loop: its two \<open>if\<close> statements, one after the other\<close>
  "performance_step lines i l a = string_ops_step lines i l (sqrt_step lines i l a)"

definition float_compare_step :: "nat \<Rightarrow> string \<Rightarrow> analysis \<Rightarrow> analysis" where
  "float_compare_step i l a =
     (if re_search float_compare_pattern l
      then dict_append a ''game_specific'' (mk_finding i l ''Direct floating-point comparison''
        ''Use epsilon-based comparison for floating-point values to avoid precision issues'')
      else a)"

definition magic_number_step :: "nat \<Rightarrow> string \<Rightarrow> analysis \<Rightarrow> analysis" where
  "magic_number_step i l a =
     (if re_search magic_number_pattern l \<and> \<not> re_search const_float_pattern l
         \<and> \<not> re_search (lits ''#define'') l
      then dict_append a ''code_style'' (mk_finding i l ''Magic number usage''
        ''Define named constants for magic numbers to improve code readability and maintainability'')
      else a)"

definition game_step :: "nat \<Rightarrow> string \<Rightarrow> analysis \<Rightarrow> analysis" where
  \<comment> \<open>the body of the fifth loop\<close>
  "game_step i l a = magic_number_step i l (float_compare_step i l a)"

definition primitive_step :: "nat \<Rightarrow> string \<Rightarrow> string \<Rightarrow> analysis \<Rightarrow> analysis" where
  \<comment> \<open>the body of the loop over \<open>primitive_types\<close>\<close>
  "primitive_step i l type_name a =
     (if re_search (primitive_pattern type_name) l
      then dict_append a ''potential_bugs'' (mk_finding i l ''Uninitialized primitive variable''
        ''Initialize variables at declaration to avoid undefined behavior'')
      else a)"

definition uninitialized_step :: "nat \<Rightarrow> string \<Rightarrow> analysis \<Rightarrow> analysis" where
  "uninitialized_step i l a =
     (if re_search declaration_pattern l \<and> \<not> re_search (Lit (CHR ''='')) l
         \<and> \<not> re_search keyword_pattern l
      then fold (primitive_step i l) primitive_types a
      else a)"

definition null_deref_step :: "string list \<Rightarrow> nat \<Rightarrow> string \<Rightarrow> analysis \<Rightarrow> analysis" where
  "null_deref_step lines i l a =
     (if str_contains ''->'' l \<and> ''if'' \<notin> set (window lines i 3)
         \<and> ''nullptr'' \<notin> set (window lines i 3) \<and> ''NULL'' \<notin> set (window lines i 3)
      then dict_append a ''potential_bugs'' (mk_finding i l ''Potential null pointer dereference''
        ''Add null check before dereferencing pointers'')
      else a)"

definition bugs_step :: "string list \<Rightarrow> nat \<Rightarrow> string \<Rightarrow> analysis \<Rightarrow> analysis" where
  \<comment> \<open>the body of the sixth loop\<close>
  "bugs_step lines i l a = null_deref_step lines i l (uninitialized_step i l a)"

definition for_enumerate :: "(nat \<Rightarrow> 'a \<Rightarrow> 's \<Rightarrow> 's) \<Rightarrow> 'a list \<Rightarrow> 's \<Rightarrow> 's" where
  \<comment> \<open>\<open>for i, x in enumerate(xs): body\<close>, the body changing a state\<close>
  "for_enumerate body xs = fold (\<lambda>(i, x). body i x) (enumerate 0 xs)"

definition empty_analysis :: analysis where
  "empty_analysis = [(''performance_issues'', []), (''memory_management'', []), (''code_style'', []),
     (''modern_cpp'', []), (''game_specific'', []), (''potential_bugs'', [])]"

definition analyze_lines :: "string list \<Rightarrow> analysis" where
  \<comment> \<open>the six loops of \<open>analyze_cpp_code\<close>, in the order of the source\<close>
  "analyze_lines lines =
     (let a0 = empty_analysis;
          a1 = for_enumerate raw_pointer_step lines a0;
          a2 = for_enumerate c_array_step lines a1;
          a3 = for_enumerate index_loop_step lines a2;
          a4 = for_enumerate (performance_step lines) lines a3;
          a5 = for_enumerate game_step lines a4;
          a6 = for_enumerate (bugs_step lines) lines a5
      in a6)"

definition analyze_cpp_code :: "string \<Rightarrow> analysis" where
  "analyze_cpp_code src = analyze_lines (split_char NL src)"

section \<open>\<open>code_analyzer.generate_diff\<close>\<close>

definition CR :: char where
  "CR = CHR 0x0D"

definition is_linebreak :: "char \<Rightarrow> bool" where
  \<comment> \<open>the line boundaries of \<open>str.splitlines\<close> among the code points below 256\<close>
  "is_linebreak c = (let n = (of_char c :: nat)
     in (10 \<le> n \<and> n \<le> 13) \<or> (28 \<le> n \<and> n \<le> 30) \<or> n = 133)"

fun splitlines :: "string \<Rightarrow> string list" where
  \<comment> \<open>\<open>s.splitlines()\<close>: a carriage return followed by a newline is one boundary, and a
     boundary at the very end opens no further line\<close>
  "splitlines [] = []"
| "splitlines (c # cs) =
     (if c = CR \<and> cs \<noteq> [] \<and> hd cs = NL then [] # splitlines (tl cs)
      else if is_linebreak c then [] # splitlines cs
      else (case splitlines cs of [] \<Rightarrow> [[c]] | l # ls \<Rightarrow> (c # l) # ls))"

text \<open>
  \<open>difflib.HtmlDiff().make_file\<close> belongs to the standard library, not to the program: it
  is a parameter of the model, a function from the two line lists, the two column titles
  and the \<open>context\<close> flag to the page.
\<close>

type_synonym html_diff = "string list \<Rightarrow> string list \<Rightarrow> string \<Rightarrow> string \<Rightarrow> bool \<Rightarrow> string"

definition generate_diff :: "html_diff \<Rightarrow> string \<Rightarrow> string \<Rightarrow> string" where
  "generate_diff make_file original_code improved_code =
     make_file (splitlines original_code) (splitlines improved_code)
       ''Original Code'' ''Improved Code'' True"

section \<open>\<open>code_suggester.format_analysis_for_prompt\<close>\<close>

definition str_replace_char :: "char \<Rightarrow> char \<Rightarrow> string \<Rightarrow> string" where
  \<comment> \<open>\<open>s.replace(old, new)\<close> for two strings of one character\<close>
  "str_replace_char old new s = map (\<lambda>c. if c = old then new else c) s"

definition is_upper :: "char \<Rightarrow> bool" where
  "is_upper c = (let n = (of_char c :: nat) in 65 \<le> n \<and> n \<le> 90)"

definition is_lower :: "char \<Rightarrow> bool" where
  "is_lower c = (let n = (of_char c :: nat) in 97 \<le> n \<and> n \<le> 122)"

definition to_upper :: "char \<Rightarrow> char" where
  "to_upper c = (if is_lower c then char_of (of_char c - (32 :: nat)) else c)"

definition to_lower :: "char \<Rightarrow> char" where
  "to_lower c = (if is_upper c then char_of (of_char c + (32 :: nat)) else c)"

text \<open>
  \<open>str.title\<close>: a cased character is put in upper case when the character before it is not
  cased, and in lower case otherwise. Case is modelled for the ASCII letters; every other
  character counts as uncased and is left as it is. The program applies \<open>title\<close> to the keys
  of the analysis only.
\<close>

fun title_from :: "bool \<Rightarrow> string \<Rightarrow> string" where
  "title_from previous_is_cased [] = []"
| "title_from previous_is_cased (c # cs) =
     (if previous_is_cased then to_lower c else to_upper c)
       # title_from (is_upper c \<or> is_lower c) cs"

definition title :: "string \<Rightarrow> string" where
  "title s = title_from False s"

definition digit_char :: "nat \<Rightarrow> char" where
  "digit_char d = char_of (48 + d)"

fun str_of_nat :: "nat \<Rightarrow> string" where
  \<comment> \<open>\<open>str(n)\<close> for an integer that is not negative\<close>
  "str_of_nat n = (if n < 10 then [digit_char n] else str_of_nat (n div 10) @ [digit_char (n mod 10)])"

fun str_join :: "string \<Rightarrow> string list \<Rightarrow> string" where
  \<comment> \<open>\<open>sep.join(xs)\<close>\<close>
  "str_join sep [] = []"
| "str_join sep [x] = x"
| "str_join sep (x # y # ys) = x @ sep @ str_join sep (y # ys)"

definition format_issue :: "finding \<Rightarrow> string list \<Rightarrow> string list" where
  \<comment> \<open>the body of the loop over the findings of a category: three entries are appended\<close>
  "format_issue f result =
     result @ [''- Line '' @ str_of_nat (line f) @ '': '' @ issue f]
            @ [''  Code: '' @ code f]
            @ [''  Suggestion: '' @ suggestion f]"

definition format_category :: "string \<times> finding list \<Rightarrow> string list \<Rightarrow> string list" where
  \<comment> \<open>the body of the loop over \<open>analysis.items()\<close>\<close>
  "format_category item result =
     (case item of (category, issues) \<Rightarrow>
        if issues \<noteq> [] then
          (let category_name = title (str_replace_char (CHR ''_'') (CHR '' '') category);
               r1 = result @ [''## '' @ category_name];
               r2 = fold format_issue issues r1
           in r2 @ [[]])
        else result)"

definition report_entries :: "analysis \<Rightarrow> string list" where
  \<comment> \<open>the list \<open>result\<close> when the loops are over\<close>
  "report_entries a = fold format_category a []"

definition format_analysis_for_prompt :: "analysis \<Rightarrow> string" where
  "format_analysis_for_prompt a = str_join [NL] (report_entries a)"

section \<open>\<open>code_suggester.extract_code_and_explanation\<close>\<close>

definition code_pattern :: regex where
  \<comment> \<open>\<open>```cpp\n(.*?)```\<close> with \<open>re.DOTALL\<close>: the dot matches every character\<close>
  "code_pattern = seq [lits (''```cpp'' @ [NL]), Star (Cls (\<lambda>c. True)), lits ''```'']"

text \<open>
  \<open>re.search\<close> returns the match with the leftmost start. Among the matches that start
  there, the matcher tries the lazy \<open>.*?\<close> with no character first, then with one, and so
  on, so for \<open>code_pattern\<close> the match found is the shortest one. The result is the start and
  the end of the match, for a search from position \<open>pos\<close> on.
\<close>

definition first_match :: "regex \<Rightarrow> string \<Rightarrow> nat \<Rightarrow> (nat \<times> nat) option" where
  "first_match r s pos =
     (case find (\<lambda>p. adv r s [p] \<noteq> []) [pos ..< Suc (length s)] of
        None \<Rightarrow> None
      | Some p \<Rightarrow> Some (p, Min (set (adv r s [p]))))"

primrec remove_matches :: "nat \<Rightarrow> regex \<Rightarrow> string \<Rightarrow> nat \<Rightarrow> string" where
  \<comment> \<open>the text from \<open>pos\<close> on without the matches, found from left to right, each search
     starting where the match before it ended; the first argument bounds their number\<close>
  "remove_matches 0 r s pos = drop pos s"
| "remove_matches (Suc n) r s pos =
     (case first_match r s pos of
        None \<Rightarrow> drop pos s
      | Some (p, e) \<Rightarrow> py_slice s pos p @ remove_matches n r s e)"

definition re_sub_empty :: "regex \<Rightarrow> string \<Rightarrow> string" where
  \<comment> \<open>\<open>re.sub(pattern, "", s)\<close> for a pattern that matches no empty string: there are at
     most \<open>len(s)\<close> matches\<close>
  "re_sub_empty r s = remove_matches (length s) r s 0"

definition extract_code_and_explanation :: "string \<Rightarrow> string \<times> string" where
  \<comment> \<open>\<open>group(1)\<close> is the match without the seven characters of the opening fence and
     the three of the closing one\<close>
  "extract_code_and_explanation response_text =
     (case first_match code_pattern response_text 0 of
        Some (p, e) \<Rightarrow>
          (strip (py_slice response_text (p + 7) (e - 3)),
           strip (re_sub_empty code_pattern response_text))
      | None \<Rightarrow> ([], response_text))"

section \<open>\<open>code_suggester.generate_code_suggestions\<close>\<close>

text \<open>
  The exceptions of the model are instances of \<open>Exception\<close>, which the handler
  \<open>except Exception\<close> catches: the \<open>ValueError\<close> the function raises itself, and whatever the
  Groq client raises (connection, status, rate limit, authentication errors).
\<close>

datatype py_exception = ValueError string | ClientError string

fun str_exc :: "py_exception \<Rightarrow> string" where
  \<comment> \<open>\<open>str(e)\<close>\<close>
  "str_exc (ValueError msg) = msg"
| "str_exc (ClientError msg) = msg"

record request =
  model :: string
  messages :: "(string \<times> string) list"
  temperature :: real
  max_tokens :: nat

text \<open>
  The collaborator: from the API key and the request to the text
  \<open>response.choices[0].message.content\<close>, or to the exception raised on the way (by the
  construction of the client, by the call, or by the access to the first choice).
\<close>

type_synonym completion = "string \<Rightarrow> request \<Rightarrow> py_exception + string"

definition system_content :: "string \<Rightarrow> string" where
  "system_content analysis_text =
     ''You are a C++ expert specializing in game development. '' @ [NL]
     @ ''Your task is to improve the provided code based on the user's request and the static analysis results.'' @ [NL]
     @ ''Focus on performance, readability, and best practices for game development.'' @ [NL]
     @ [NL]
     @ ''Here's the static analysis of the code:'' @ [NL]
     @ analysis_text @ [NL]
     @ [NL]
     @ ''Provide your response in the following format:'' @ [NL]
     @ ''1. The complete improved code in a ```cpp code block'' @ [NL]
     @ ''2. A detailed explanation of all changes made, organized by category (performance, memory management, etc.)'' @ [NL]
     @ ''3. Highlight the most important improvements first'' @ [NL]
     @ [NL]
     @ ''Make sure your improvements address both the user's specific request and the issues identified in the analysis.'' @ [NL]
     @ ''For game development, prioritize performance optimizations and memory management improvements.''"

definition user_content :: "string \<Rightarrow> string \<Rightarrow> string" where
  "user_content src prompt =
     ''Here is my C++ game development code:'' @ [NL] @ [NL] @ ''```cpp'' @ [NL] @ src @ [NL]
     @ ''```'' @ [NL] @ [NL] @ ''I want to improve it by: '' @ prompt"

definition build_request :: "string \<Rightarrow> string \<Rightarrow> string \<Rightarrow> request" where
  "build_request analysis_text src prompt =
     \<lparr>model = ''llama3-70b-8192'',
      messages = [(''system'', system_content analysis_text), (''user'', user_content src prompt)],
      temperature = 0.2,
      max_tokens = 4000\<rparr>"

definition try_suggestions ::
  "(string \<rightharpoonup> string) \<Rightarrow> completion \<Rightarrow> html_diff \<Rightarrow> string \<Rightarrow> string \<Rightarrow> string
     \<Rightarrow> py_exception + (string \<times> string \<times> string)" where
  \<comment> \<open>the \<open>try\<close> block: \<open>Inl\<close> is the exception that leaves it\<close>
  "try_suggestions environ client make_file analysis_text src prompt =
     (case environ ''GROQ_API_KEY'' of
        None \<Rightarrow> Inl (ValueError ''GROQ_API_KEY environment variable is not set'')
      | Some api_key \<Rightarrow>
          if api_key = [] then Inl (ValueError ''GROQ_API_KEY environment variable is not set'')
          else (case client api_key (build_request analysis_text src prompt) of
                  Inl e \<Rightarrow> Inl e
                | Inr response_text \<Rightarrow>
                    (case extract_code_and_explanation response_text of
                       (improved_code, explanation) \<Rightarrow>
                         Inr (improved_code, explanation,
                              generate_diff make_file src improved_code))))"

definition generate_code_suggestions ::
  "(string \<rightharpoonup> string) \<Rightarrow> completion \<Rightarrow> html_diff \<Rightarrow> string \<Rightarrow> string
     \<Rightarrow> string \<times> string \<times> string" where
  "generate_code_suggestions environ client make_file src prompt =
     (let analysis = analyze_cpp_code src;
          analysis_text = format_analysis_for_prompt analysis
      in case try_suggestions environ client make_file analysis_text src prompt of
           Inr result \<Rightarrow> result
         | Inl e \<Rightarrow> (src, ''Error generating suggestions: '' @ str_exc e, []))"


section \<open>Auxiliary notions for the proofs\<close>

definition emitted :: "(analysis \<Rightarrow> analysis) \<Rightarrow> string \<Rightarrow> finding list" where
  "emitted st k = findings_of (st [(k, [])]) k"

definition appender :: "(analysis \<Rightarrow> analysis) \<Rightarrow> bool" where
  "appender st = (\<forall>a. map fst (st a) = map fst a \<and>
     (\<forall>k. k \<in> set (map fst a) \<longrightarrow> findings_of (st a) k = findings_of a k @ emitted st k))"

definition scan :: "(nat \<Rightarrow> string \<Rightarrow> analysis \<Rightarrow> analysis) \<Rightarrow> string list \<Rightarrow> nat \<Rightarrow> string \<Rightarrow> finding list" where
  "scan st ls n k = concat (map (\<lambda>(i, l). emitted (st i l) k) (enumerate n ls))"

definition category_keys :: "string list" where
  "category_keys = [''performance_issues'', ''memory_management'', ''code_style'', ''modern_cpp'',
     ''game_specific'', ''potential_bugs'']"

definition emits_only :: "(analysis \<Rightarrow> analysis) \<Rightarrow> (string \<Rightarrow> finding \<Rightarrow> bool) \<Rightarrow> bool" where
  "emits_only st Q = (\<forall>k. \<forall>f \<in> set (emitted st k). Q k f)"

definition at_line :: "nat \<Rightarrow> string \<Rightarrow> finding \<Rightarrow> bool" where
  "at_line n k f = (line f = n)"

definition lines_at :: "(nat \<Rightarrow> string \<Rightarrow> analysis \<Rightarrow> analysis) \<Rightarrow> bool" where
  "lines_at st = (\<forall>i l. emits_only (st i l) (at_line (i + 1)))"

definition offset_line :: "nat \<Rightarrow> finding \<Rightarrow> finding" where
  "offset_line n f = f\<lparr>line := line f + n\<rparr>"

definition last_lines :: "nat \<Rightarrow> string list \<Rightarrow> string list" where
  "last_lines k ls = drop (length ls - k) ls"

text \<open>
  The seam between two snippets. \<open>boundary_free\<close>: no line that a window of the second
  snippet can reach contains one of the tokens of that window. \<open>boundary_clear\<close>: none of
  these lines is one of the tokens, which is all the tests of the program read.
\<close>

definition boundary_free :: "string list \<Rightarrow> bool" where
  "boundary_free ls =
     (list_all (\<lambda>l. \<not> str_contains ''for'' l \<and> \<not> str_contains ''while'' l) (last_lines 5 ls)
      \<and> list_all (\<lambda>l. \<not> str_contains ''update'' l \<and> \<not> str_contains ''render'' l)
            (last_lines 10 ls)
      \<and> list_all (\<lambda>l. \<not> str_contains ''if'' l \<and> \<not> str_contains ''nullptr'' l
            \<and> \<not> str_contains ''NULL'' l) (last_lines 3 ls))"

definition boundary_clear :: "string list \<Rightarrow> bool" where
  "boundary_clear ls =
     (''for'' \<notin> set (last_lines 5 ls) \<and> ''while'' \<notin> set (last_lines 5 ls)
      \<and> ''update'' \<notin> set (last_lines 10 ls) \<and> ''render'' \<notin> set (last_lines 10 ls)
      \<and> ''if'' \<notin> set (last_lines 3 ls) \<and> ''nullptr'' \<notin> set (last_lines 3 ls)
      \<and> ''NULL'' \<notin> set (last_lines 3 ls))"

definition emits_like :: "(analysis \<Rightarrow> analysis) \<Rightarrow> (finding \<Rightarrow> finding) \<Rightarrow> (analysis \<Rightarrow> analysis) \<Rightarrow> bool" where
  "emits_like st h st' = (\<forall>k. emitted st k = map h (emitted st' k))"

text \<open>The report, entry by entry: what a finding and a category contribute.\<close>

definition finding_entries :: "finding \<Rightarrow> string list" where
  "finding_entries f =
     [''- Line '' @ str_of_nat (line f) @ '': '' @ issue f,
      ''  Code: '' @ code f,
      ''  Suggestion: '' @ suggestion f]"

definition category_block :: "string \<times> finding list \<Rightarrow> string list" where
  "category_block item =
     (''## '' @ title (str_replace_char (CHR ''_'') (CHR '' '') (fst item)))
       # concat (map finding_entries (snd item)) @ [[]]"

text \<open>The two fences of \<open>code_pattern\<close>, and the response built around a code block.\<close>

definition fence_open :: string where
  "fence_open = ''```cpp'' @ [NL]"

definition fence_close :: string where
  "fence_close = ''```''"

definition fenced_response :: "string \<Rightarrow> string \<Rightarrow> string \<Rightarrow> string" where
  "fenced_response pre cd suf = pre @ '' ```cpp'' @ [NL] @ cd @ [NL] @ ''``` '' @ suf"

section \<open>Loop bodies that only append\<close>

lemma keys_dict_append: "map fst (dict_append a k f) = map fst a"
  by (induction a) (auto simp: dict_append_def)

lemma findings_of_dict_append:
  "findings_of (dict_append a k f) k' =
     (if k' = k \<and> k \<in> set (map fst a) then findings_of a k @ [f] else findings_of a k')"
  by (induction a) (force simp: dict_append_def findings_of_def)+

lemma findings_of_single: "findings_of [(k, fs)] k = fs"
  by (simp add: findings_of_def)

lemma appenderI:
  assumes "\<And>a. map fst (st a) = map fst a"
    and "\<And>a k. k \<in> set (map fst a) \<Longrightarrow> findings_of (st a) k = findings_of a k @ emitted st k"
  shows "appender st"
  using assms unfolding appender_def by blast

lemma appender_keys: "appender st \<Longrightarrow> map fst (st a) = map fst a"
  unfolding appender_def by blast

lemma appender_findings:
  "appender st \<Longrightarrow> k \<in> set (map fst a) \<Longrightarrow> findings_of (st a) k = findings_of a k @ emitted st k"
  unfolding appender_def by blast

lemma appender_id: "appender (\<lambda>a. a)"
  by (rule appenderI) (simp_all add: emitted_def findings_of_single)

lemma emitted_id: "emitted (\<lambda>a. a) k = []"
  by (simp add: emitted_def findings_of_single)

lemma emitted_dict_append:
  "emitted (\<lambda>a. dict_append a k f) k' = (if k' = k then [f] else [])"
  by (simp add: emitted_def findings_of_dict_append findings_of_single)

lemma appender_dict_append: "appender (\<lambda>a. dict_append a k f)"
  by (rule appenderI) (auto simp: keys_dict_append findings_of_dict_append emitted_dict_append)

lemma emitted_comp:
  assumes "appender f" "appender g"
  shows "emitted (\<lambda>a. g (f a)) k = emitted f k @ emitted g k"
proof -
  have "k \<in> set (map fst (f [(k, [])]))"
    using appender_keys [OF assms(1), of "[(k, [])]"] by simp
  then have "findings_of (g (f [(k, [])])) k = findings_of (f [(k, [])]) k @ emitted g k"
    by (rule appender_findings [OF assms(2)])
  then show ?thesis by (simp add: emitted_def)
qed

lemma appender_comp:
  assumes "appender f" "appender g"
  shows "appender (\<lambda>a. g (f a))"
proof (rule appenderI)
  fix a :: analysis show "map fst (g (f a)) = map fst a"
    by (simp add: appender_keys [OF assms(1)] appender_keys [OF assms(2)])
next
  fix a :: analysis and k assume k: "k \<in> set (map fst a)"
  then have "k \<in> set (map fst (f a))" by (simp add: appender_keys [OF assms(1)])
  then have "findings_of (g (f a)) k = findings_of (f a) k @ emitted g k"
    by (rule appender_findings [OF assms(2)])
  then show "findings_of (g (f a)) k = findings_of a k @ emitted (\<lambda>a. g (f a)) k"
    by (simp add: appender_findings [OF assms(1) k] emitted_comp [OF assms])
qed

lemma appender_if: "appender f \<Longrightarrow> appender g \<Longrightarrow> appender (\<lambda>a. if c then f a else g a)"
  by (cases c) simp_all

lemma emitted_if: "emitted (\<lambda>a. if c then f a else g a) k = (if c then emitted f k else emitted g k)"
  by (simp add: emitted_def)

lemma appender_fold:
  assumes "\<And>x. appender (st x)"
  shows "appender (fold st xs) \<and> emitted (fold st xs) k = concat (map (\<lambda>x. emitted (st x) k) xs)"
proof (induction xs rule: rev_induct)
  case Nil
  show ?case using appender_id emitted_id by (simp add: id_def)
next
  case (snoc x xs)
  have eq: "fold st (xs @ [x]) = (\<lambda>a. st x (fold st xs a))" by (simp add: fun_eq_iff)
  from snoc have a1: "appender (fold st xs)" by simp
  show ?case
    unfolding eq using appender_comp [OF a1 assms [of x]] emitted_comp [OF a1 assms [of x], of k] snoc
    by simp
qed

lemma appender_for_enumerate:
  assumes "\<And>i l. appender (st i l)"
  shows "appender (for_enumerate st ls)"
  unfolding for_enumerate_def
  by (rule conjunct1 [OF appender_fold]) (simp add: assms split_def)

lemma emitted_for_enumerate:
  assumes "\<And>i l. appender (st i l)"
  shows "emitted (for_enumerate st ls) k = scan st ls 0 k"
proof -
  have "\<And>x. appender ((\<lambda>(i, l). st i l) x)" by (simp add: assms split_def)
  from conjunct2 [OF appender_fold, of "\<lambda>(i, l). st i l" "enumerate 0 ls" k, OF this]
  show ?thesis by (simp add: for_enumerate_def scan_def split_def)
qed

lemma appender_cond_append: "appender (\<lambda>a. if c then dict_append a k f else a)"
  by (rule appender_if [OF appender_dict_append appender_id])

lemma appender_raw_pointer_step: "appender (raw_pointer_step i l)"
  unfolding raw_pointer_step_def [abs_def] by (rule appender_cond_append)

lemma appender_c_array_step: "appender (c_array_step i l)"
  unfolding c_array_step_def [abs_def] by (rule appender_cond_append)

lemma appender_index_loop_step: "appender (index_loop_step i l)"
  unfolding index_loop_step_def [abs_def] by (rule appender_cond_append)

lemma appender_sqrt_step: "appender (sqrt_step ls i l)"
  unfolding sqrt_step_def [abs_def] by (rule appender_cond_append)

lemma appender_string_ops_step: "appender (string_ops_step ls i l)"
  unfolding string_ops_step_def [abs_def] by (rule appender_cond_append)

lemma performance_step_comp:
  "performance_step ls i l = (\<lambda>a. string_ops_step ls i l (sqrt_step ls i l a))"
  by (simp add: fun_eq_iff performance_step_def)

lemma appender_performance_step: "appender (performance_step ls i l)"
  unfolding performance_step_comp
  by (rule appender_comp [OF appender_sqrt_step appender_string_ops_step])

lemma appender_float_compare_step: "appender (float_compare_step i l)"
  unfolding float_compare_step_def [abs_def] by (rule appender_cond_append)

lemma appender_magic_number_step: "appender (magic_number_step i l)"
  unfolding magic_number_step_def [abs_def] by (rule appender_cond_append)

lemma game_step_comp: "game_step i l = (\<lambda>a. magic_number_step i l (float_compare_step i l a))"
  by (simp add: fun_eq_iff game_step_def)

lemma appender_game_step: "appender (game_step i l)"
  unfolding game_step_comp
  by (rule appender_comp [OF appender_float_compare_step appender_magic_number_step])

lemma appender_primitive_step: "appender (primitive_step i l t)"
  unfolding primitive_step_def [abs_def] by (rule appender_cond_append)

lemma appender_primitive_fold: "appender (fold (primitive_step i l) ts)"
  by (rule conjunct1 [OF appender_fold]) (rule appender_primitive_step)

lemma appender_uninitialized_step: "appender (uninitialized_step i l)"
  unfolding uninitialized_step_def [abs_def]
  by (rule appender_if [OF appender_primitive_fold appender_id])

lemma appender_null_deref_step: "appender (null_deref_step ls i l)"
  unfolding null_deref_step_def [abs_def] by (rule appender_cond_append)

lemma bugs_step_comp: "bugs_step ls i l = (\<lambda>a. null_deref_step ls i l (uninitialized_step i l a))"
  by (simp add: fun_eq_iff bugs_step_def)

lemma appender_bugs_step: "appender (bugs_step ls i l)"
  unfolding bugs_step_comp
  by (rule appender_comp [OF appender_uninitialized_step appender_null_deref_step])

lemma findings_of_empty_analysis: "findings_of empty_analysis k = []"
  by (simp add: findings_of_def empty_analysis_def)

lemma keys_empty_analysis: "map fst empty_analysis = category_keys"
  by (simp add: empty_analysis_def category_keys_def)

lemma keys_analyze_lines: "map fst (analyze_lines ls) = category_keys"
  by (simp add: analyze_lines_def Let_def keys_empty_analysis
      appender_keys [OF appender_for_enumerate] appender_raw_pointer_step appender_c_array_step
      appender_index_loop_step appender_performance_step appender_game_step appender_bugs_step)

lemma findings_analyze_lines:
  assumes "k \<in> set category_keys"
  shows "findings_of (analyze_lines ls) k =
     scan raw_pointer_step ls 0 k @ scan c_array_step ls 0 k @ scan index_loop_step ls 0 k
     @ scan (performance_step ls) ls 0 k @ scan game_step ls 0 k @ scan (bugs_step ls) ls 0 k"
proof -
  note ap = appender_for_enumerate [of raw_pointer_step, OF appender_raw_pointer_step]
    appender_for_enumerate [of c_array_step, OF appender_c_array_step]
    appender_for_enumerate [of index_loop_step, OF appender_index_loop_step]
    appender_for_enumerate [of "performance_step ls", OF appender_performance_step]
    appender_for_enumerate [of game_step, OF appender_game_step]
    appender_for_enumerate [of "bugs_step ls", OF appender_bugs_step]
  note em = emitted_for_enumerate [of raw_pointer_step, OF appender_raw_pointer_step]
    emitted_for_enumerate [of c_array_step, OF appender_c_array_step]
    emitted_for_enumerate [of index_loop_step, OF appender_index_loop_step]
    emitted_for_enumerate [of "performance_step ls", OF appender_performance_step]
    emitted_for_enumerate [of game_step, OF appender_game_step]
    emitted_for_enumerate [of "bugs_step ls", OF appender_bugs_step]
  from assms show ?thesis
    by (simp add: analyze_lines_def Let_def appender_findings ap appender_keys keys_empty_analysis
        findings_of_empty_analysis em)
qed

lemma findings_analyze_lines_other:
  assumes "k \<notin> set category_keys"
  shows "findings_of (analyze_lines ls) k = []"
proof -
  have "map_of (analyze_lines ls) k = None"
    using assms keys_analyze_lines [of ls] by (metis map_of_eq_None_iff set_map)
  then show ?thesis by (simp add: findings_of_def)
qed

lemma emits_only_id: "emits_only (\<lambda>a. a) Q"
  by (simp add: emits_only_def emitted_id)

lemma emits_only_cond_append: "(c \<Longrightarrow> Q k f) \<Longrightarrow> emits_only (\<lambda>a. if c then dict_append a k f else a) Q"
  by (simp add: emits_only_def emitted_if emitted_dict_append emitted_id)

lemma emits_only_comp:
  "appender f \<Longrightarrow> appender g \<Longrightarrow> emits_only f Q \<Longrightarrow> emits_only g Q \<Longrightarrow> emits_only (\<lambda>a. g (f a)) Q"
  by (auto simp: emits_only_def emitted_comp)

lemma emits_only_if:
  "(c \<Longrightarrow> emits_only f Q) \<Longrightarrow> (\<not> c \<Longrightarrow> emits_only g Q) \<Longrightarrow> emits_only (\<lambda>a. if c then f a else g a) Q"
  by (cases c) simp_all

lemma emits_only_fold:
  assumes "\<And>x. appender (st x)" and "\<And>x. emits_only (st x) Q"
  shows "emits_only (fold st xs) Q"
  using assms(2) by (auto simp: emits_only_def conjunct2 [OF appender_fold, of st, OF assms(1)])

lemma line_mk_finding: "line (mk_finding i l a b) = i + 1"
  by (simp add: mk_finding_def)

lemma emits_only_raw_pointer_step:
  assumes "\<And>iss sug. Q ''memory_management'' (mk_finding i l iss sug)"
  shows "emits_only (raw_pointer_step i l) Q"
  unfolding raw_pointer_step_def [abs_def] by (rule emits_only_cond_append) (rule assms)

lemma emits_only_c_array_step:
  assumes "\<And>sug. Q ''modern_cpp'' (mk_finding i l ''C-style array usage'' sug)"
  shows "emits_only (c_array_step i l) Q"
  unfolding c_array_step_def [abs_def] by (rule emits_only_cond_append) (rule assms)

lemma emits_only_index_loop_step:
  assumes "\<And>sug. Q ''modern_cpp'' (mk_finding i l ''Index-based loop over container'' sug)"
  shows "emits_only (index_loop_step i l) Q"
  unfolding index_loop_step_def [abs_def] by (rule emits_only_cond_append) (rule assms)

lemma emits_only_sqrt_step:
  assumes "\<And>iss sug. Q ''performance_issues'' (mk_finding i l iss sug)"
  shows "emits_only (sqrt_step ls i l) Q"
  unfolding sqrt_step_def [abs_def] by (rule emits_only_cond_append) (rule assms)

lemma emits_only_string_ops_step:
  assumes "\<And>iss sug. Q ''performance_issues'' (mk_finding i l iss sug)"
  shows "emits_only (string_ops_step ls i l) Q"
  unfolding string_ops_step_def [abs_def] by (rule emits_only_cond_append) (rule assms)

lemma emits_only_performance_step:
  assumes "\<And>iss sug. Q ''performance_issues'' (mk_finding i l iss sug)"
  shows "emits_only (performance_step ls i l) Q"
  unfolding performance_step_comp
  by (rule emits_only_comp [OF appender_sqrt_step appender_string_ops_step
        emits_only_sqrt_step emits_only_string_ops_step]) (rule assms)+

lemma emits_only_float_compare_step:
  assumes "\<And>iss sug. Q ''game_specific'' (mk_finding i l iss sug)"
  shows "emits_only (float_compare_step i l) Q"
  unfolding float_compare_step_def [abs_def] by (rule emits_only_cond_append) (rule assms)

lemma emits_only_magic_number_step:
  assumes "\<And>iss sug. Q ''code_style'' (mk_finding i l iss sug)"
  shows "emits_only (magic_number_step i l) Q"
  unfolding magic_number_step_def [abs_def] by (rule emits_only_cond_append) (rule assms)

lemma emits_only_game_step:
  assumes "\<And>iss sug. Q ''game_specific'' (mk_finding i l iss sug)"
    and "\<And>iss sug. Q ''code_style'' (mk_finding i l iss sug)"
  shows "emits_only (game_step i l) Q"
  unfolding game_step_comp
  by (rule emits_only_comp [OF appender_float_compare_step appender_magic_number_step
        emits_only_float_compare_step emits_only_magic_number_step]) (rule assms)+

lemma emits_only_primitive_step:
  assumes "\<And>iss sug. Q ''potential_bugs'' (mk_finding i l iss sug)"
  shows "emits_only (primitive_step i l t) Q"
  unfolding primitive_step_def [abs_def] by (rule emits_only_cond_append) (rule assms)

lemma emits_only_uninitialized_step:
  assumes "\<And>iss sug. Q ''potential_bugs'' (mk_finding i l iss sug)"
  shows "emits_only (uninitialized_step i l) Q"
  unfolding uninitialized_step_def [abs_def]
proof (rule emits_only_if)
  show "emits_only (fold (primitive_step i l) primitive_types) Q"
    by (rule emits_only_fold) (rule appender_primitive_step, rule emits_only_primitive_step, rule assms)
  show "emits_only (\<lambda>a. a) Q" by (rule emits_only_id)
qed

lemma emits_only_null_deref_step:
  assumes "\<And>iss sug. Q ''potential_bugs'' (mk_finding i l iss sug)"
  shows "emits_only (null_deref_step ls i l) Q"
  unfolding null_deref_step_def [abs_def] by (rule emits_only_cond_append) (rule assms)

lemma emits_only_bugs_step:
  assumes "\<And>iss sug. Q ''potential_bugs'' (mk_finding i l iss sug)"
  shows "emits_only (bugs_step ls i l) Q"
  unfolding bugs_step_comp
  by (rule emits_only_comp [OF appender_uninitialized_step appender_null_deref_step
        emits_only_uninitialized_step emits_only_null_deref_step]) (rule assms)+

lemma at_line_mk: "at_line (i + 1) k (mk_finding i l a b)"
  by (simp add: at_line_def line_mk_finding)

lemma lines_at_steps:
  "lines_at raw_pointer_step" "lines_at c_array_step" "lines_at index_loop_step"
  "lines_at (performance_step ls)" "lines_at game_step" "lines_at (bugs_step ls)"
  unfolding lines_at_def
  by (intro allI emits_only_raw_pointer_step emits_only_c_array_step emits_only_index_loop_step
      emits_only_performance_step emits_only_game_step emits_only_bugs_step at_line_mk)+

lemma scan_lines:
  assumes "lines_at st" and "f \<in> set (scan st ls n k)"
  shows "n + 1 \<le> line f \<and> line f \<le> n + length ls"
proof -
  from assms(2) obtain i l where il: "(i, l) \<in> set (enumerate n ls)" and f: "f \<in> set (emitted (st i l) k)"
    by (auto simp: scan_def)
  from il have "n \<le> i \<and> i < n + length ls" by (auto simp: in_set_enumerate_eq)
  moreover from assms(1) f have "line f = i + 1" by (auto simp: lines_at_def emits_only_def at_line_def)
  ultimately show ?thesis by simp
qed

lemma sorted_const: "\<forall>x \<in> set xs. x = (c::nat) \<Longrightarrow> sorted xs"
  by (induction xs) auto

lemma scan_sorted:
  assumes "lines_at st"
  shows "sorted (map line (scan st ls n k))"
proof (induction ls arbitrary: n)
  case Nil
  show ?case by (simp add: scan_def)
next
  case (Cons l ls)
  have eq: "scan st (l # ls) n k = emitted (st n l) k @ scan st ls (Suc n) k"
    by (simp add: scan_def)
  have a: "\<forall>f \<in> set (emitted (st n l) k). line f = n + 1"
    using assms by (auto simp: lines_at_def emits_only_def at_line_def)
  have b: "\<forall>f \<in> set (scan st ls (Suc n) k). n + 1 \<le> line f"
  proof
    fix f assume "f \<in> set (scan st ls (Suc n) k)"
    from scan_lines [OF assms this] show "n + 1 \<le> line f" by simp
  qed
  have "sorted (map line (emitted (st n l) k))"
    by (rule sorted_const [of _ "n + 1"]) (use a in auto)
  with a b Cons [of "Suc n"] show ?case
    by (auto simp: eq sorted_append)
qed

section \<open>Claims about \<open>analyze_cpp_code\<close>\<close>

lemma findings_in_range:
  assumes "f \<in> set (findings_of (analyze_lines ls) k)"
  shows "1 \<le> line f \<and> line f \<le> length ls"
proof (cases "k \<in> set category_keys")
  case True
  from assms have "f \<in> set (scan raw_pointer_step ls 0 k) \<or> f \<in> set (scan c_array_step ls 0 k)
      \<or> f \<in> set (scan index_loop_step ls 0 k) \<or> f \<in> set (scan (performance_step ls) ls 0 k)
      \<or> f \<in> set (scan game_step ls 0 k) \<or> f \<in> set (scan (bugs_step ls) ls 0 k)"
    by (simp add: findings_analyze_lines [OF True])
  then show ?thesis
    using scan_lines [of _ f ls 0 k] lines_at_steps by auto
next
  case False
  with assms show ?thesis by (simp add: findings_analyze_lines_other)
qed

text \<open>
  C1. For every input, the result of \<open>analyze_cpp_code\<close> has exactly the six category keys,
  in the order of the source, whether or not a category has findings; and the line of every
  finding lies between 1 and the number of lines of the input split at newlines.
\<close>

theorem analyze_keys_and_line_range:
  "map fst (analyze_cpp_code src) =
     [''performance_issues'', ''memory_management'', ''code_style'', ''modern_cpp'',
      ''game_specific'', ''potential_bugs'']
   \<and> (\<forall>k. \<forall>f \<in> set (findings_of (analyze_cpp_code src) k).
         1 \<le> line f \<and> line f \<le> length (split_char NL src))"
  unfolding analyze_cpp_code_def
  using keys_analyze_lines [of "split_char NL src"] findings_in_range [of _ "split_char NL src"]
  by (simp add: category_keys_def)

theorem analyze_keys_and_line_range_witness:
  "findings_of (analyze_cpp_code ''int* ptr = new int(5);'') ''memory_management'' \<noteq> []
   \<and> 1 \<le> line (hd (findings_of (analyze_cpp_code ''int* ptr = new int(5);'') ''memory_management''))
   \<and> line (hd (findings_of (analyze_cpp_code ''int* ptr = new int(5);'') ''memory_management''))
       \<le> length (split_char NL ''int* ptr = new int(5);'')"
proof -
  let ?fs = "findings_of (analyze_cpp_code ''int* ptr = new int(5);'') ''memory_management''"
  have ne: "?fs \<noteq> []" by code_simp
  then have "hd ?fs \<in> set ?fs" by simp
  with analyze_keys_and_line_range [of "''int* ptr = new int(5);''"] ne show ?thesis by blast
qed


text \<open>
  C4. The claim: a line with \<open>sqrt\<close> gets the finding "Expensive sqrt operation in loop" when
  one of the five lines before it contains \<open>for\<close> or \<open>while\<close>. In the program the test is
  \<open>'for' in lines[max(0, i-5):i]\<close>, membership in a list of lines, so a loop header such as
  \<open>for (int i = 0; i < n; i++) {\<close> does not count: the input below has \<open>sqrt\<close> on line 2,
  \<open>for\<close> inside line 1, and no finding.
\<close>

theorem sqrt_after_loop_header_not_reported:
  "split_char NL (''for (int i = 0; i < n; i++) {'' @ [NL] @ ''    d = sqrt(x);'' @ [NL] @ ''}'')
     = [''for (int i = 0; i < n; i++) {'', ''    d = sqrt(x);'', ''}'']
   \<and> str_contains ''sqrt'' ''    d = sqrt(x);''
   \<and> str_contains ''for'' ''for (int i = 0; i < n; i++) {''
   \<and> findings_of (analyze_cpp_code
         (''for (int i = 0; i < n; i++) {'' @ [NL] @ ''    d = sqrt(x);'' @ [NL] @ ''}''))
       ''performance_issues'' = []"
  by code_simp

text \<open>
  C5. The claim: a line with \<open>->\<close> gets the finding "Potential null pointer dereference"
  exactly when none of the three lines before it contains \<open>if\<close>, \<open>nullptr\<close> or \<open>NULL\<close>.
  The program tests \<open>'if' not in lines[max(0, i-3):i]\<close>, again membership in a list of
  lines: below, line 1 contains \<open>if\<close> and \<open>nullptr\<close>, and line 2 is reported all the same.
\<close>

theorem guarded_dereference_still_reported:
  "split_char NL (''if (p != nullptr) {'' @ [NL] @ ''    p->x = 1;'' @ [NL] @ ''}'')
     = [''if (p != nullptr) {'', ''    p->x = 1;'', ''}'']
   \<and> str_contains ''if'' ''if (p != nullptr) {''
   \<and> str_contains ''nullptr'' ''if (p != nullptr) {''
   \<and> findings_of (analyze_cpp_code
         (''if (p != nullptr) {'' @ [NL] @ ''    p->x = 1;'' @ [NL] @ ''}''))
       ''potential_bugs''
     = [\<lparr>line = 2, code = ''p->x = 1;'', issue = ''Potential null pointer dereference'',
         suggestion = ''Add null check before dereferencing pointers''\<rparr>]"
  by code_simp


lemma emitted_other_key:
  assumes "emits_only st (\<lambda>k' f. k' \<in> K)" and "k \<notin> K"
  shows "emitted st k = []"
proof (cases "emitted st k")
  case Nil
  then show ?thesis .
next
  case (Cons f fs)
  then have "f \<in> set (emitted st k)" by simp
  with assms show ?thesis by (auto simp: emits_only_def)
qed

lemma scan_other_key:
  assumes "\<And>i l. emits_only (st i l) (\<lambda>k' f. k' \<in> K)" and "k \<notin> K"
  shows "scan st ls n k = []"
  by (simp add: scan_def split_def emitted_other_key [OF assms])

lemma scan_raw_pointer_other: "k \<noteq> ''memory_management'' \<Longrightarrow> scan raw_pointer_step ls n k = []"
  by (rule scan_other_key [where K = "{''memory_management''}"])
     (rule emits_only_raw_pointer_step, simp_all)

lemma scan_c_array_other: "k \<noteq> ''modern_cpp'' \<Longrightarrow> scan c_array_step ls n k = []"
  by (rule scan_other_key [where K = "{''modern_cpp''}"])
     (rule emits_only_c_array_step, simp_all)

lemma scan_index_loop_other: "k \<noteq> ''modern_cpp'' \<Longrightarrow> scan index_loop_step ls n k = []"
  by (rule scan_other_key [where K = "{''modern_cpp''}"])
     (rule emits_only_index_loop_step, simp_all)

lemma scan_performance_other:
  "k \<noteq> ''performance_issues'' \<Longrightarrow> scan (performance_step ls') ls n k = []"
  by (rule scan_other_key [where K = "{''performance_issues''}"])
     (rule emits_only_performance_step, simp_all)

lemma scan_game_other:
  "k \<noteq> ''game_specific'' \<Longrightarrow> k \<noteq> ''code_style'' \<Longrightarrow> scan game_step ls n k = []"
  by (rule scan_other_key [where K = "{''game_specific'', ''code_style''}"])
     (rule emits_only_game_step, simp_all)

lemma scan_bugs_other: "k \<noteq> ''potential_bugs'' \<Longrightarrow> scan (bugs_step ls') ls n k = []"
  by (rule scan_other_key [where K = "{''potential_bugs''}"])
     (rule emits_only_bugs_step, simp_all)

lemmas scan_other = scan_raw_pointer_other scan_c_array_other scan_index_loop_other
  scan_performance_other scan_game_other scan_bugs_other

lemma findings_by_category:
  "findings_of (analyze_lines ls) ''performance_issues'' = scan (performance_step ls) ls 0 ''performance_issues''"
  "findings_of (analyze_lines ls) ''memory_management'' = scan raw_pointer_step ls 0 ''memory_management''"
  "findings_of (analyze_lines ls) ''code_style'' = scan game_step ls 0 ''code_style''"
  "findings_of (analyze_lines ls) ''modern_cpp'' =
     scan c_array_step ls 0 ''modern_cpp'' @ scan index_loop_step ls 0 ''modern_cpp''"
  "findings_of (analyze_lines ls) ''game_specific'' = scan game_step ls 0 ''game_specific''"
  "findings_of (analyze_lines ls) ''potential_bugs'' = scan (bugs_step ls) ls 0 ''potential_bugs''"
  by (simp_all add: findings_analyze_lines category_keys_def scan_other)

lemma category_cases:
  assumes "k \<in> set category_keys"
  shows "k = ''performance_issues'' \<or> k = ''memory_management'' \<or> k = ''code_style''
     \<or> k = ''modern_cpp'' \<or> k = ''game_specific'' \<or> k = ''potential_bugs''"
  using assms by (simp add: category_keys_def)

lemma sorted_single_detector:
  assumes "k \<noteq> ''modern_cpp''"
  shows "sorted (map line (findings_of (analyze_lines ls) k))"
proof (cases "k \<in> set category_keys")
  case True
  from category_cases [OF True] assms show ?thesis
    by (auto simp: findings_by_category scan_sorted lines_at_steps)
next
  case False
  then show ?thesis by (simp add: findings_analyze_lines_other)
qed

lemma issue_mk_finding: "issue (mk_finding i l iss sug) = iss"
  by (simp add: mk_finding_def)

lemma scan_all:
  assumes "\<And>i l. emits_only (st i l) Q" and "f \<in> set (scan st ls n k)"
  shows "Q k f"
  using assms by (auto simp: scan_def emits_only_def)

lemma scan_c_array_issue:
  "f \<in> set (scan c_array_step ls n k) \<Longrightarrow> issue f = ''C-style array usage''"
  by (rule scan_all [where Q = "\<lambda>k f. issue f = ''C-style array usage''" and st = c_array_step])
     (rule emits_only_c_array_step, simp_all add: issue_mk_finding)

lemma scan_index_loop_issue:
  "f \<in> set (scan index_loop_step ls n k) \<Longrightarrow> issue f = ''Index-based loop over container''"
  by (rule scan_all [where Q = "\<lambda>k f. issue f = ''Index-based loop over container''"
        and st = index_loop_step])
     (rule emits_only_index_loop_step, simp_all add: issue_mk_finding)

lemma filter_all: "(\<And>x. x \<in> set xs \<Longrightarrow> P x) \<Longrightarrow> filter P xs = xs"
  by (induction xs) auto

lemma filter_none: "(\<And>x. x \<in> set xs \<Longrightarrow> \<not> P x) \<Longrightarrow> filter P xs = []"
  by (induction xs) auto

lemma modern_cpp_arrays:
  "filter (\<lambda>f. issue f = ''C-style array usage'') (findings_of (analyze_lines ls) ''modern_cpp'')
     = scan c_array_step ls 0 ''modern_cpp''"
proof -
  have "filter (\<lambda>f. issue f = ''C-style array usage'') (scan c_array_step ls 0 ''modern_cpp'')
      = scan c_array_step ls 0 ''modern_cpp''"
    by (rule filter_all) (rule scan_c_array_issue)
  moreover have "filter (\<lambda>f. issue f = ''C-style array usage'') (scan index_loop_step ls 0 ''modern_cpp'') = []"
    by (rule filter_none) (simp add: scan_index_loop_issue)
  ultimately show ?thesis by (simp add: findings_by_category)
qed

lemma modern_cpp_loops:
  "filter (\<lambda>f. issue f = ''Index-based loop over container'')
       (findings_of (analyze_lines ls) ''modern_cpp'')
     = scan index_loop_step ls 0 ''modern_cpp''"
proof -
  have "filter (\<lambda>f. issue f = ''Index-based loop over container'') (scan index_loop_step ls 0 ''modern_cpp'')
      = scan index_loop_step ls 0 ''modern_cpp''"
    by (rule filter_all) (rule scan_index_loop_issue)
  moreover have "filter (\<lambda>f. issue f = ''Index-based loop over container'') (scan c_array_step ls 0 ''modern_cpp'') = []"
    by (rule filter_none) (simp add: scan_c_array_issue)
  ultimately show ?thesis by (simp add: findings_by_category)
qed

text \<open>
  C6, as stated: in every category the findings are in ascending order of line. This fails
  in \<open>modern_cpp\<close>, which two loops fill one after the other: all array findings come before
  all loop findings. Below, the loop header of line 1 is reported after the array of line 2.
\<close>

theorem modern_cpp_not_ascending:
  "map line (findings_of (analyze_cpp_code
       (''for (int i = 0; i < v.size(); i++) {'' @ [NL] @ ''    int arr[10];'')) ''modern_cpp'')
     = [2, 1]
   \<and> \<not> sorted (map line (findings_of (analyze_cpp_code
       (''for (int i = 0; i < v.size(); i++) {'' @ [NL] @ ''    int arr[10];'')) ''modern_cpp''))"
  by code_simp

text \<open>
  C6, amended: in every category other than \<open>modern_cpp\<close> the findings are in ascending
  order of line. In \<open>modern_cpp\<close> the findings are the "C-style array usage" findings in
  ascending order of line, followed by the "Index-based loop over container" findings in
  ascending order of line.
\<close>

theorem findings_ascending_per_detector:
  "(k \<noteq> ''modern_cpp'' \<longrightarrow> sorted (map line (findings_of (analyze_cpp_code src) k)))
   \<and> findings_of (analyze_cpp_code src) ''modern_cpp''
       = filter (\<lambda>f. issue f = ''C-style array usage'') (findings_of (analyze_cpp_code src) ''modern_cpp'')
         @ filter (\<lambda>f. issue f = ''Index-based loop over container'')
             (findings_of (analyze_cpp_code src) ''modern_cpp'')
   \<and> sorted (map line (filter (\<lambda>f. issue f = ''C-style array usage'')
         (findings_of (analyze_cpp_code src) ''modern_cpp'')))
   \<and> sorted (map line (filter (\<lambda>f. issue f = ''Index-based loop over container'')
         (findings_of (analyze_cpp_code src) ''modern_cpp'')))"
  unfolding analyze_cpp_code_def modern_cpp_arrays modern_cpp_loops
  by (simp add: sorted_single_detector scan_sorted lines_at_steps findings_by_category)

theorem findings_ascending_per_detector_witness:
  "''potential_bugs'' \<noteq> ''modern_cpp''
   \<and> map line (findings_of (analyze_cpp_code (''p->x = 1;'' @ [NL] @ ''q->y = 2;'')) ''potential_bugs'')
       = [1, 2]
   \<and> sorted (map line (findings_of (analyze_cpp_code (''p->x = 1;'' @ [NL] @ ''q->y = 2;''))
       ''potential_bugs''))"
proof -
  have "map line (findings_of (analyze_cpp_code (''p->x = 1;'' @ [NL] @ ''q->y = 2;'')) ''potential_bugs'')
      = [1, 2]"
    by code_simp
  moreover have "''potential_bugs'' \<noteq> ''modern_cpp''" by simp
  ultimately show ?thesis
    using findings_ascending_per_detector [of "''potential_bugs''" "''p->x = 1;'' @ [NL] @ ''q->y = 2;''"]
    by blast
qed


section \<open>Analysing two snippets joined by a newline\<close>

lemma split_char_nonempty: "split_char d s \<noteq> []"
  by (induction s) (auto split: list.splits)

lemma split_char_append: "split_char d (a @ d # b) = split_char d a @ split_char d b"
proof (induction a)
  case Nil
  show ?case by simp
next
  case (Cons c cs)
  show ?case
  proof (cases "c = d")
    case True
    with Cons show ?thesis by simp
  next
    case False
    obtain l ls where "split_char d cs = l # ls"
      using split_char_nonempty [of d cs] by (cases "split_char d cs") auto
    with False Cons show ?thesis by simp
  qed
qed

lemma emits_like_id: "emits_like (\<lambda>a. a) h (\<lambda>a. a)"
  by (simp add: emits_like_def emitted_id)

lemma emits_like_cond_append:
  "c = c' \<Longrightarrow> f = h f' \<Longrightarrow>
   emits_like (\<lambda>a. if c then dict_append a k f else a) h (\<lambda>a. if c' then dict_append a k f' else a)"
  by (simp add: emits_like_def emitted_if emitted_dict_append emitted_id)

lemma emits_like_comp:
  assumes "appender f" "appender g" "appender f'" "appender g'"
    and "emits_like f h f'" "emits_like g h g'"
  shows "emits_like (\<lambda>a. g (f a)) h (\<lambda>a. g' (f' a))"
  using assms(5,6)
  by (simp add: emits_like_def emitted_comp [OF assms(1,2)] emitted_comp [OF assms(3,4)])

lemma emits_like_if:
  "c = c' \<Longrightarrow> emits_like f h f' \<Longrightarrow> emits_like g h g' \<Longrightarrow>
   emits_like (\<lambda>a. if c then f a else g a) h (\<lambda>a. if c' then f' a else g' a)"
  by (cases c) simp_all

lemma emits_like_fold:
  assumes "\<And>x. appender (st x)" "\<And>x. appender (st' x)" "\<And>x. emits_like (st x) h (st' x)"
  shows "emits_like (fold st xs) h (fold st' xs)"
  using assms(3)
  by (simp add: emits_like_def conjunct2 [OF appender_fold, of st, OF assms(1)]
      conjunct2 [OF appender_fold, of st', OF assms(2)] map_concat comp_def)

lemma mk_finding_offset: "mk_finding (n + j) l iss sug = offset_line n (mk_finding j l iss sug)"
  by (simp add: mk_finding_def offset_line_def)

lemma like_raw_pointer_step:
  "emits_like (raw_pointer_step (n + j) l) (offset_line n) (raw_pointer_step j l)"
  unfolding raw_pointer_step_def [abs_def]
  by (rule emits_like_cond_append) (simp_all add: mk_finding_offset)

lemma like_c_array_step:
  "emits_like (c_array_step (n + j) l) (offset_line n) (c_array_step j l)"
  unfolding c_array_step_def [abs_def]
  by (rule emits_like_cond_append) (simp_all add: mk_finding_offset)

lemma like_index_loop_step:
  "emits_like (index_loop_step (n + j) l) (offset_line n) (index_loop_step j l)"
  unfolding index_loop_step_def [abs_def]
  by (rule emits_like_cond_append) (simp_all add: mk_finding_offset)

lemma like_float_compare_step:
  "emits_like (float_compare_step (n + j) l) (offset_line n) (float_compare_step j l)"
  unfolding float_compare_step_def [abs_def]
  by (rule emits_like_cond_append) (simp_all add: mk_finding_offset)

lemma like_magic_number_step:
  "emits_like (magic_number_step (n + j) l) (offset_line n) (magic_number_step j l)"
  unfolding magic_number_step_def [abs_def]
  by (rule emits_like_cond_append) (simp_all add: mk_finding_offset)

lemma like_game_step: "emits_like (game_step (n + j) l) (offset_line n) (game_step j l)"
  unfolding game_step_comp
  by (rule emits_like_comp [OF appender_float_compare_step appender_magic_number_step
        appender_float_compare_step appender_magic_number_step
        like_float_compare_step like_magic_number_step])

lemma like_primitive_step:
  "emits_like (primitive_step (n + j) l t) (offset_line n) (primitive_step j l t)"
  unfolding primitive_step_def [abs_def]
  by (rule emits_like_cond_append) (simp_all add: mk_finding_offset)

lemma like_uninitialized_step:
  "emits_like (uninitialized_step (n + j) l) (offset_line n) (uninitialized_step j l)"
  unfolding uninitialized_step_def [abs_def]
  by (rule emits_like_if [OF refl emits_like_fold emits_like_id])
     (rule appender_primitive_step appender_primitive_step like_primitive_step)+

lemma like_sqrt_step:
  assumes "\<And>t. t \<in> {''for'', ''while''} \<Longrightarrow> t \<in> set (window ls (n + j) 5) \<longleftrightarrow> t \<in> set (window ls' j 5)"
  shows "emits_like (sqrt_step ls (n + j) l) (offset_line n) (sqrt_step ls' j l)"
  unfolding sqrt_step_def [abs_def]
  by (rule emits_like_cond_append) (simp_all add: mk_finding_offset assms)

lemma like_string_ops_step:
  assumes "\<And>t. t \<in> {''update'', ''render''} \<Longrightarrow> t \<in> set (window ls (n + j) 10) \<longleftrightarrow> t \<in> set (window ls' j 10)"
  shows "emits_like (string_ops_step ls (n + j) l) (offset_line n) (string_ops_step ls' j l)"
  unfolding string_ops_step_def [abs_def]
  by (rule emits_like_cond_append) (simp_all add: mk_finding_offset assms)

lemma like_null_deref_step:
  assumes "\<And>t. t \<in> {''if'', ''nullptr'', ''NULL''} \<Longrightarrow> t \<in> set (window ls (n + j) 3) \<longleftrightarrow> t \<in> set (window ls' j 3)"
  shows "emits_like (null_deref_step ls (n + j) l) (offset_line n) (null_deref_step ls' j l)"
  unfolding null_deref_step_def [abs_def]
  by (rule emits_like_cond_append) (simp_all add: mk_finding_offset assms)

lemma window_prefix:
  assumes "i \<le> length la"
  shows "window (la @ lb) i k = window la i k"
  using assms by (simp add: window_def py_slice_def)

lemma window_nat: "window ls i (int w) = take (min w i) (drop (i - w) ls)"
proof -
  have "nat (max 0 (int i - int w)) = i - w" by (simp add: max_def) arith
  moreover have "i - (i - w) = min w i" by arith
  ultimately show ?thesis by (simp add: window_def py_slice_def)
qed

lemma window_suffix:
  assumes "0 \<le> k"
  shows "window (la @ lb) (length la + j) k = drop (length la + j - nat k) la @ window lb j k"
proof -
  obtain w where k: "k = int w" using assms by (metis nat_0_le)
  show ?thesis
  proof (cases "w \<le> j")
    case True
    then show ?thesis by (simp add: k window_nat min_def)
  next
    case False
    then show ?thesis by (simp add: k window_nat min_def)
  qed
qed

lemma window_suffix_mem:
  assumes "0 \<le> k" and "t \<notin> set (last_lines (nat k) la)"
  shows "t \<in> set (window (la @ lb) (length la + j) k) \<longleftrightarrow> t \<in> set (window lb j k)"
proof -
  have "set (drop (length la + j - nat k) la) \<subseteq> set (last_lines (nat k) la)"
    unfolding last_lines_def by (rule set_drop_subset_set_drop) simp
  with assms(2) have "t \<notin> set (drop (length la + j - nat k) la)" by blast
  then show ?thesis by (simp add: window_suffix [OF assms(1)])
qed

lemma scan_append: "scan st (la @ lb) 0 k = scan st la 0 k @ scan st lb (length la) k"
  by (simp add: scan_def enumerate_append_eq)

lemma scan_cong:
  assumes "\<And>i l. i < n + length ls \<Longrightarrow> emitted (st i l) k = emitted (st' i l) k"
  shows "scan st ls n k = scan st' ls n k"
proof -
  have "map (\<lambda>(i, l). emitted (st i l) k) (enumerate n ls)
      = map (\<lambda>(i, l). emitted (st' i l) k) (enumerate n ls)"
    by (rule map_cong [OF refl]) (auto simp: in_set_enumerate_eq assms)
  then show ?thesis unfolding scan_def by (rule arg_cong)
qed

lemma scan_like:
  assumes "\<And>j l. emits_like (st (n + j) l) h (st' j l)"
  shows "scan st ls n k = map h (scan st' ls 0 k)"
proof -
  have "enumerate n ls = map (\<lambda>(j, l). (n + j, l)) (enumerate 0 ls)"
  proof -
    have "[n..<n + length ls] = map (\<lambda>j. n + j) [0..<length ls]"
      using map_add_upt [of n "length ls"] by (simp add: add.commute)
    then show ?thesis by (simp add: enumerate_eq_zip zip_map1)
  qed
  then have "scan st ls n k = concat (map (\<lambda>(j, l). emitted (st (n + j) l) k) (enumerate 0 ls))"
    by (simp add: scan_def split_def comp_def)
  also have "\<dots> = concat (map (\<lambda>(j, l). map h (emitted (st' j l) k)) (enumerate 0 ls))"
    using assms by (simp add: emits_like_def)
  also have "\<dots> = map h (scan st' ls 0 k)"
    by (simp add: scan_def map_concat split_def comp_def)
  finally show ?thesis .
qed

lemma scan_concat:
  assumes "\<And>i l. i < length la \<Longrightarrow> emitted (st i l) k = emitted (sta i l) k"
    and "\<And>j l. emits_like (st (length la + j) l) (offset_line (length la)) (stb j l)"
  shows "scan st (la @ lb) 0 k = scan sta la 0 k @ map (offset_line (length la)) (scan stb lb 0 k)"
proof -
  have "scan st la 0 k = scan sta la 0 k"
    by (rule scan_cong) (simp add: assms(1))
  moreover have "scan st lb (length la) k = map (offset_line (length la)) (scan stb lb 0 k)"
    by (rule scan_like) (rule assms(2))
  ultimately show ?thesis by (simp add: scan_append)
qed

lemma sqrt_step_prefix: "i \<le> length la \<Longrightarrow> sqrt_step (la @ lb) i l = sqrt_step la i l"
  by (simp add: fun_eq_iff sqrt_step_def window_prefix)

lemma string_ops_step_prefix:
  "i \<le> length la \<Longrightarrow> string_ops_step (la @ lb) i l = string_ops_step la i l"
  by (simp add: fun_eq_iff string_ops_step_def window_prefix)

lemma null_deref_step_prefix:
  "i \<le> length la \<Longrightarrow> null_deref_step (la @ lb) i l = null_deref_step la i l"
  by (simp add: fun_eq_iff null_deref_step_def window_prefix)

lemma performance_step_prefix:
  "i \<le> length la \<Longrightarrow> performance_step (la @ lb) i l = performance_step la i l"
  by (simp add: performance_step_comp sqrt_step_prefix string_ops_step_prefix)

lemma bugs_step_prefix: "i \<le> length la \<Longrightarrow> bugs_step (la @ lb) i l = bugs_step la i l"
  by (simp add: bugs_step_comp null_deref_step_prefix)

lemma like_performance_step_suffix:
  assumes "boundary_clear la"
  shows "emits_like (performance_step (la @ lb) (length la + j) l) (offset_line (length la))
     (performance_step lb j l)"
  unfolding performance_step_comp
proof (rule emits_like_comp [OF appender_sqrt_step appender_string_ops_step
      appender_sqrt_step appender_string_ops_step])
  show "emits_like (sqrt_step (la @ lb) (length la + j) l) (offset_line (length la)) (sqrt_step lb j l)"
  proof (rule like_sqrt_step)
    fix t :: string assume "t \<in> {''for'', ''while''}"
    with assms have "t \<notin> set (last_lines (nat 5) la)" by (auto simp: boundary_clear_def)
    then show "t \<in> set (window (la @ lb) (length la + j) 5) \<longleftrightarrow> t \<in> set (window lb j 5)"
      by (intro window_suffix_mem) simp_all
  qed
  show "emits_like (string_ops_step (la @ lb) (length la + j) l) (offset_line (length la))
      (string_ops_step lb j l)"
  proof (rule like_string_ops_step)
    fix t :: string assume "t \<in> {''update'', ''render''}"
    with assms have "t \<notin> set (last_lines (nat 10) la)" by (auto simp: boundary_clear_def)
    then show "t \<in> set (window (la @ lb) (length la + j) 10) \<longleftrightarrow> t \<in> set (window lb j 10)"
      by (intro window_suffix_mem) simp_all
  qed
qed

lemma like_bugs_step_suffix:
  assumes "boundary_clear la"
  shows "emits_like (bugs_step (la @ lb) (length la + j) l) (offset_line (length la)) (bugs_step lb j l)"
  unfolding bugs_step_comp
proof (rule emits_like_comp [OF appender_uninitialized_step appender_null_deref_step
      appender_uninitialized_step appender_null_deref_step like_uninitialized_step])
  show "emits_like (null_deref_step (la @ lb) (length la + j) l) (offset_line (length la))
      (null_deref_step lb j l)"
  proof (rule like_null_deref_step)
    fix t :: string assume "t \<in> {''if'', ''nullptr'', ''NULL''}"
    with assms have "t \<notin> set (last_lines (nat 3) la)" by (auto simp: boundary_clear_def)
    then show "t \<in> set (window (la @ lb) (length la + j) 3) \<longleftrightarrow> t \<in> set (window lb j 3)"
      by (intro window_suffix_mem) simp_all
  qed
qed

lemma concat_scans:
  "scan raw_pointer_step (la @ lb) 0 k
     = scan raw_pointer_step la 0 k @ map (offset_line (length la)) (scan raw_pointer_step lb 0 k)"
  "scan c_array_step (la @ lb) 0 k
     = scan c_array_step la 0 k @ map (offset_line (length la)) (scan c_array_step lb 0 k)"
  "scan index_loop_step (la @ lb) 0 k
     = scan index_loop_step la 0 k @ map (offset_line (length la)) (scan index_loop_step lb 0 k)"
  "scan game_step (la @ lb) 0 k
     = scan game_step la 0 k @ map (offset_line (length la)) (scan game_step lb 0 k)"
  by (rule scan_concat [OF refl], rule like_raw_pointer_step like_c_array_step
      like_index_loop_step like_game_step)+

lemma concat_scans_window:
  assumes "boundary_clear la"
  shows "scan (performance_step (la @ lb)) (la @ lb) 0 k
     = scan (performance_step la) la 0 k
       @ map (offset_line (length la)) (scan (performance_step lb) lb 0 k)"
    and "scan (bugs_step (la @ lb)) (la @ lb) 0 k
     = scan (bugs_step la) la 0 k @ map (offset_line (length la)) (scan (bugs_step lb) lb 0 k)"
proof -
  show "scan (performance_step (la @ lb)) (la @ lb) 0 k
     = scan (performance_step la) la 0 k
       @ map (offset_line (length la)) (scan (performance_step lb) lb 0 k)"
    by (rule scan_concat) (simp_all add: performance_step_prefix like_performance_step_suffix [OF assms])
  show "scan (bugs_step (la @ lb)) (la @ lb) 0 k
     = scan (bugs_step la) la 0 k @ map (offset_line (length la)) (scan (bugs_step lb) lb 0 k)"
    by (rule scan_concat) (simp_all add: bugs_step_prefix like_bugs_step_suffix [OF assms])
qed

lemma concat_single_detector:
  assumes "boundary_clear la" and "k \<noteq> ''modern_cpp''"
  shows "findings_of (analyze_lines (la @ lb)) k
     = findings_of (analyze_lines la) k @ map (offset_line (length la)) (findings_of (analyze_lines lb) k)"
proof (cases "k \<in> set category_keys")
  case True
  from category_cases [OF True] assms(2) show ?thesis
    by (auto simp: findings_by_category concat_scans concat_scans_window [OF assms(1)])
next
  case False
  then show ?thesis by (simp add: findings_analyze_lines_other)
qed

lemma concat_modern_cpp:
  "mset (findings_of (analyze_lines (la @ lb)) ''modern_cpp'')
     = mset (findings_of (analyze_lines la) ''modern_cpp'')
       + mset (map (offset_line (length la)) (findings_of (analyze_lines lb) ''modern_cpp''))"
  by (simp add: findings_by_category concat_scans)

text \<open>
  C7, as stated: analysing the concatenation of two snippets gives the findings of the
  first and the findings of the second, the second's lines offset by the line count of the
  first. The windows of the first lines of the second snippet reach back into the first
  one: below, neither snippet has a \<open>performance_issues\<close> finding on its own, and the
  concatenation has one, whether the first snippet is taken with its newline or without.
\<close>

theorem concatenation_adds_finding:
  "findings_of (analyze_cpp_code ((''for'' @ [NL]) @ ''x = sqrt(y);'')) ''performance_issues''
     = [\<lparr>line = 2, code = ''x = sqrt(y);'', issue = ''Expensive sqrt operation in loop'',
         suggestion = ''For magnitude comparisons, consider using squared magnitude (x*x + y*y) instead of sqrt(x*x + y*y)''\<rparr>]
   \<and> findings_of (analyze_cpp_code (''for'' @ [NL])) ''performance_issues'' = []
   \<and> findings_of (analyze_cpp_code ''for'') ''performance_issues'' = []
   \<and> findings_of (analyze_cpp_code ''x = sqrt(y);'') ''performance_issues'' = []"
  by code_simp

lemma str_contains_self: "str_contains w w"
  by (cases w) simp_all

lemma boundary_free_clear:
  assumes "boundary_free ls"
  shows "boundary_clear ls"
  using assms str_contains_self
  unfolding boundary_free_def boundary_clear_def list_all_iff by blast

text \<open>
  C7, amended: let the two snippets be joined by a newline, so that the lines of the whole
  are the lines of the first followed by the lines of the second, and let none of the last
  5 lines of the first contain \<open>for\<close> or \<open>while\<close>, none of its last 10 contain \<open>update\<close>
  or \<open>render\<close>, and none of its last 3 contain \<open>if\<close>, \<open>nullptr\<close> or \<open>NULL\<close>. Then every
  category of the whole holds the findings of the first snippet and those of the second
  with their lines offset by the line count of the first: as a multiset in every category,
  and, outside \<open>modern_cpp\<close>, in this order.
\<close>

theorem concatenation_is_union:
  assumes "boundary_free (split_char NL a)"
  shows "mset (findings_of (analyze_cpp_code (a @ [NL] @ b)) k)
       = mset (findings_of (analyze_cpp_code a) k)
         + mset (map (offset_line (length (split_char NL a))) (findings_of (analyze_cpp_code b) k))
     \<and> (k \<noteq> ''modern_cpp'' \<longrightarrow>
         findings_of (analyze_cpp_code (a @ [NL] @ b)) k
           = findings_of (analyze_cpp_code a) k
             @ map (offset_line (length (split_char NL a))) (findings_of (analyze_cpp_code b) k))"
proof (cases "k = ''modern_cpp''")
  case True
  then show ?thesis
    by (simp add: analyze_cpp_code_def split_char_append concat_modern_cpp)
next
  case False
  then show ?thesis
    by (simp add: analyze_cpp_code_def split_char_append
        concat_single_detector [OF boundary_free_clear [OF assms]])
qed

theorem concatenation_is_union_witness:
  "boundary_free (split_char NL ''int* ptr = new int(5);'')
   \<and> findings_of (analyze_cpp_code (''int* ptr = new int(5);'' @ [NL] @ ''float y = 3.5;'')) ''code_style''
       = findings_of (analyze_cpp_code ''int* ptr = new int(5);'') ''code_style''
         @ map (offset_line (length (split_char NL ''int* ptr = new int(5);'')))
             (findings_of (analyze_cpp_code ''float y = 3.5;'') ''code_style'')
   \<and> map line (findings_of (analyze_cpp_code (''int* ptr = new int(5);'' @ [NL] @ ''float y = 3.5;''))
        ''code_style'') = [2]
   \<and> map line (findings_of (analyze_cpp_code (''int* ptr = new int(5);'' @ [NL] @ ''float y = 3.5;''))
        ''memory_management'') = [1]"
proof -
  have bc: "boundary_free (split_char NL ''int* ptr = new int(5);'')" by code_simp
  have "map line (findings_of (analyze_cpp_code (''int* ptr = new int(5);'' @ [NL] @ ''float y = 3.5;''))
        ''code_style'') = [2]"
    by code_simp
  moreover have "map line (findings_of (analyze_cpp_code (''int* ptr = new int(5);'' @ [NL] @ ''float y = 3.5;''))
        ''memory_management'') = [1]"
    by code_simp
  moreover have "''code_style'' \<noteq> ''modern_cpp''" by simp
  ultimately show ?thesis
    using bc concatenation_is_union [OF bc, of "''float y = 3.5;''" "''code_style''"] by blast
qed

section \<open>Claims about \<open>format_analysis_for_prompt\<close>\<close>

lemma fold_format_issue: "fold format_issue fs r = r @ concat (map finding_entries fs)"
  by (induction fs arbitrary: r) (simp_all add: format_issue_def finding_entries_def)

lemma format_category_block:
  "format_category (k, fs) r = (if fs \<noteq> [] then r @ category_block (k, fs) else r)"
  by (simp add: format_category_def Let_def fold_format_issue category_block_def)

lemma fold_format_category:
  "fold format_category a r = r @ concat (map category_block (filter (\<lambda>(k, fs). fs \<noteq> []) a))"
proof (induction a arbitrary: r)
  case Nil
  show ?case by simp
next
  case (Cons item a)
  obtain k fs where item: "item = (k, fs)" by (cases item)
  show ?case by (simp add: item Cons format_category_block)
qed

lemma dash_entries_finding: "filter (prefix ''- '') (finding_entries f) = [hd (finding_entries f)]"
  by (simp add: finding_entries_def)

lemma dash_entries_findings:
  "length (filter (prefix ''- '') (concat (map finding_entries fs))) = length fs"
  by (induction fs) (simp_all add: dash_entries_finding)

lemma dash_entries_block:
  "length (filter (prefix ''- '') (category_block (k, fs))) = length fs"
  by (simp add: category_block_def dash_entries_findings)

lemma dash_entries_blocks:
  "length (filter (prefix ''- '') (concat (map category_block (filter (\<lambda>(k, fs). fs \<noteq> []) a))))
     = length (concat (map snd a))"
proof (induction a)
  case Nil
  show ?case by simp
next
  case (Cons item a)
  obtain k fs where item: "item = (k, fs)" by (cases item)
  show ?case using Cons by (simp add: item dash_entries_block)
qed

text \<open>
  C9, as stated: every finding has exactly one entry that starts with \<open>- \<close>, and this
  entry holds the line number, the issue label, the code snippet and the suggestion. The
  program writes three entries per finding: the one that starts with \<open>- \<close> holds the line
  number and the issue label only. Below, the report of a one-line input.
\<close>

theorem dash_entry_without_snippet:
  "report_entries (analyze_cpp_code ''int* ptr = new int(5);'')
     = [''## Memory Management'',
        ''- Line 1: Raw pointer usage'',
        ''  Code: int* ptr = new int(5);'',
        ''  Suggestion: Consider using smart pointers (std::unique_ptr or std::shared_ptr) for automatic memory management'',
        []]
   \<and> \<not> str_contains ''int* ptr = new int(5);'' ''- Line 1: Raw pointer usage''
   \<and> \<not> str_contains ''Consider using smart pointers (std::unique_ptr or std::shared_ptr) for automatic memory management''
         ''- Line 1: Raw pointer usage''"
  by code_simp

text \<open>
  C9, amended: the report is the entries below, joined by newlines. For each category with
  at least one finding, in the order of the dictionary: the heading \<open>## \<close> followed by the
  key with underscores replaced by spaces, in title case; then for each finding, in order,
  the three entries \<open>- Line N: ISSUE\<close>, \<open>  Code: SNIPPET\<close> and \<open>  Suggestion: TEXT\<close>; then an
  empty entry. So the entries that start with \<open>- \<close> are as many as the findings.
\<close>

theorem report_by_category_blocks:
  "format_analysis_for_prompt a
     = str_join [NL] (concat (map category_block (filter (\<lambda>(k, fs). fs \<noteq> []) a)))
   \<and> length (filter (prefix ''- '') (report_entries a)) = length (concat (map snd a))"
  by (simp add: format_analysis_for_prompt_def report_entries_def fold_format_category
      dash_entries_blocks)

section \<open>Claims about \<open>generate_code_suggestions\<close>\<close>

lemma str_contains_prefix: "prefix sub s \<Longrightarrow> str_contains sub s"
  by (cases s) simp_all

lemma str_contains_append: "str_contains sub (p @ sub @ s)"
  by (induction p) (simp_all add: str_contains_prefix)

text \<open>
  C2. When the API key is set and the completion call raises, \<open>generate_code_suggestions\<close>
  returns the original code, an explanation that ends with the text of the exception, and
  an empty diff. It returns: the exception does not leave the function.
\<close>

theorem completion_failure_degrades:
  assumes "environ ''GROQ_API_KEY'' = Some api_key" and "api_key \<noteq> []"
    and "client api_key
           (build_request (format_analysis_for_prompt (analyze_cpp_code src)) src prompt) = Inl e"
  shows "generate_code_suggestions environ client make_file src prompt
       = (src, ''Error generating suggestions: '' @ str_exc e, [])
     \<and> str_contains (str_exc e)
         (fst (snd (generate_code_suggestions environ client make_file src prompt)))"
proof -
  have "generate_code_suggestions environ client make_file src prompt
      = (src, ''Error generating suggestions: '' @ str_exc e, [])"
    using assms by (simp add: generate_code_suggestions_def try_suggestions_def Let_def)
  moreover have "str_contains (str_exc e) (''Error generating suggestions: '' @ str_exc e @ [])"
    by (rule str_contains_append)
  ultimately show ?thesis by simp
qed

theorem completion_failure_degrades_witness:
  "generate_code_suggestions [''GROQ_API_KEY'' \<mapsto> ''gsk_key'']
       (\<lambda>api_key req. Inl (ClientError ''Connection error.''))
       (\<lambda>a b fromdesc todesc context. ''<html></html>'') ''int x;'' ''make it faster''
     = (''int x;'', ''Error generating suggestions: Connection error.'', [])
   \<and> str_contains ''Connection error.'' ''Error generating suggestions: Connection error.''"
  using completion_failure_degrades [of "[''GROQ_API_KEY'' \<mapsto> ''gsk_key'']" "''gsk_key''"
      "\<lambda>api_key req. Inl (ClientError ''Connection error.'')" "''int x;''" "''make it faster''"
      "ClientError ''Connection error.''" "\<lambda>a b fromdesc todesc context. ''<html></html>''"]
  by simp

text \<open>
  C3, as stated: a missing API key is reported to the caller apart from a transport
  failure, not in the shape (original code, error explanation, empty diff). The \<open>ValueError\<close>
  is raised inside the \<open>try\<close> block and the one handler catches it: below, a missing key
  and a failing call give the same result.
\<close>

theorem missing_key_same_as_transport_failure:
  "generate_code_suggestions Map.empty (\<lambda>api_key req. Inr ''unused'')
       (\<lambda>a b fromdesc todesc context. ''<html></html>'') ''int x;'' ''make it faster''
     = (''int x;'', ''Error generating suggestions: GROQ_API_KEY environment variable is not set'', [])
   \<and> generate_code_suggestions [''GROQ_API_KEY'' \<mapsto> ''gsk_key'']
       (\<lambda>api_key req. Inl (ClientError ''GROQ_API_KEY environment variable is not set''))
       (\<lambda>a b fromdesc todesc context. ''<html></html>'') ''int x;'' ''make it faster''
     = (''int x;'', ''Error generating suggestions: GROQ_API_KEY environment variable is not set'', [])"
  by (simp add: generate_code_suggestions_def try_suggestions_def Let_def)

text \<open>
  C3, amended: when the API key is absent or empty, \<open>generate_code_suggestions\<close> makes no
  request (the result is the same for every collaborator) and returns the original code,
  the explanation "Error generating suggestions: GROQ_API_KEY environment variable is not
  set" and an empty diff: the shape of a transport failure, told apart by the text of the
  explanation only.
\<close>

theorem missing_key_degrades:
  assumes "environ ''GROQ_API_KEY'' = None \<or> environ ''GROQ_API_KEY'' = Some []"
  shows "generate_code_suggestions environ client make_file src prompt
       = (src, ''Error generating suggestions: GROQ_API_KEY environment variable is not set'', [])"
  using assms by (auto simp: generate_code_suggestions_def try_suggestions_def Let_def)

theorem missing_key_degrades_witness:
  "generate_code_suggestions Map.empty (\<lambda>api_key req. Inr ''unused'')
       (\<lambda>a b fromdesc todesc context. ''<html></html>'') ''int x;'' ''make it faster''
     = (''int x;'', ''Error generating suggestions: GROQ_API_KEY environment variable is not set'', [])"
  using missing_key_degrades [of Map.empty "\<lambda>api_key req. Inr ''unused''"
      "\<lambda>a b fromdesc todesc context. ''<html></html>''" "''int x;''" "''make it faster''"]
  by simp

text \<open>
  C10. When the call succeeds and the response has no match of \<open>code_pattern\<close>, the improved
  code is empty, the explanation is the response, and the diff is what \<open>make_file\<close> returns
  for the lines of the original code and no lines. \<open>HtmlDiff.make_file\<close> returns a whole
  page whatever its arguments, never the empty string: under this hypothesis on the
  parameter the diff is not empty, unlike the diff of a failed call.
\<close>

theorem no_code_block_full_diff:
  assumes "environ ''GROQ_API_KEY'' = Some api_key" and "api_key \<noteq> []"
    and "client api_key
           (build_request (format_analysis_for_prompt (analyze_cpp_code src)) src prompt)
         = Inr response_text"
    and "first_match code_pattern response_text 0 = None"
    and "\<And>a b fromdesc todesc context. make_file a b fromdesc todesc context \<noteq> []"
  shows "generate_code_suggestions environ client make_file src prompt
       = ([], response_text,
          make_file (splitlines src) [] ''Original Code'' ''Improved Code'' True)
     \<and> snd (snd (generate_code_suggestions environ client make_file src prompt)) \<noteq> []"
  using assms
  by (simp add: generate_code_suggestions_def try_suggestions_def Let_def
      extract_code_and_explanation_def generate_diff_def)

theorem no_code_block_full_diff_witness:
  "generate_code_suggestions [''GROQ_API_KEY'' \<mapsto> ''gsk_key'']
       (\<lambda>api_key req. Inr ''I have no changes to propose.'')
       (\<lambda>a b fromdesc todesc context. ''<table>'' @ concat a @ ''</table>'') ''int x;'' ''make it faster''
     = ([], ''I have no changes to propose.'', ''<table>int x;</table>'')"
proof -
  have nomatch: "first_match code_pattern ''I have no changes to propose.'' 0 = None"
    by code_simp
  have lines: "splitlines ''int x;'' = [''int x;'']" by code_simp
  show ?thesis
    using no_code_block_full_diff [of "[''GROQ_API_KEY'' \<mapsto> ''gsk_key'']" "''gsk_key''"
      "\<lambda>api_key req. Inr ''I have no changes to propose.''" "''int x;''" "''make it faster''"
      "''I have no changes to propose.''"
      "\<lambda>a b fromdesc todesc context. ''<table>'' @ concat a @ ''</table>''"] nomatch lines
    by simp
qed

section \<open>Claims about \<open>extract_code_and_explanation\<close>\<close>

lemma prefix_Cons_drop:
  "prefix (c # w) (drop p s) \<longleftrightarrow> p < length s \<and> s ! p = c \<and> prefix w (drop (Suc p) s)"
proof (cases "p < length s")
  case True
  then have "drop p s = s ! p # drop (Suc p) s" by (simp add: Cons_nth_drop_Suc)
  with True show ?thesis by auto
next
  case False
  then show ?thesis by simp
qed

lemma adv_lits:
  "adv (lits w) s ps = map (\<lambda>p. p + length w) (filter (\<lambda>p. prefix w (drop p s)) ps)"
proof (induction w arbitrary: ps)
  case Nil
  show ?case by simp
next
  case (Cons c w)
  show ?case
    by (simp add: Cons filter_map comp_def prefix_Cons_drop conj_commute conj_left_commute)
qed

lemma star_closure_Nil: "f [] = [] \<Longrightarrow> star_closure n f [] = []"
  by (cases n) simp_all

lemma star_closure_any:
  assumes "set ps = {p..m}" and "p \<le> m" and "m \<le> L"
  shows "set (star_closure n (\<lambda>qs. map Suc (filter (\<lambda>q. q < L) qs)) ps) = {p..min (m + n) L}"
  using assms
proof (induction n arbitrary: ps m)
  case 0
  then show ?case by simp
next
  case (Suc n)
  let ?f = "\<lambda>qs. map Suc (filter (\<lambda>q. q < L) qs)"
  let ?new = "filter (\<lambda>q. q \<notin> set ps) (remdups (?f ps))"
  show ?case
  proof (cases "m < L")
    case True
    have sn: "set ?new = {Suc m}"
      using Suc.prems True by (auto simp: image_iff)
    have ne: "?new \<noteq> []"
    proof
      assume e: "?new = []"
      have "set ?new = {}" by (simp only: e list.set)
      with sn show False by simp
    qed
    have "set (ps @ ?new) = set ps \<union> set ?new" by (rule set_append)
    also from sn have "\<dots> = set ps \<union> {Suc m}" by (rule arg_cong)
    also have "\<dots> = {p..Suc m}" using Suc.prems(1,2) by auto
    finally have s: "set (ps @ ?new) = {p..Suc m}" .
    from True have "Suc m \<le> L" by simp
    from Suc.IH [OF s _ this] Suc.prems(2)
    have "set (star_closure n ?f (ps @ ?new)) = {p..min (Suc m + n) L}" by simp
    moreover have "star_closure (Suc n) ?f ps = star_closure n ?f (ps @ ?new)"
      using ne by (simp only: star_closure.simps Let_def) simp
    ultimately show ?thesis by (simp del: star_closure.simps)
  next
    case False
    with Suc.prems have m: "m = L" by simp
    have "set ?new = {}"
      using Suc.prems m by (auto simp: image_iff)
    then have e: "?new = []" by (simp only: set_empty)
    have "star_closure (Suc n) ?f ps = ps"
      by (simp only: star_closure.simps Let_def e) simp
    then show ?thesis using Suc.prems m by (simp del: star_closure.simps)
  qed
qed

lemma adv_star_any:
  assumes "p \<le> length s"
  shows "set (adv (Star (Cls (\<lambda>c. True))) s [p]) = {p..length s}"
proof -
  have f: "adv (Cls (\<lambda>c. True)) s = (\<lambda>qs. map Suc (filter (\<lambda>q. q < length s) qs))"
    by (simp add: fun_eq_iff)
  have "adv (Star (Cls (\<lambda>c. True))) s [p]
      = star_closure (Suc (length s)) (\<lambda>qs. map Suc (filter (\<lambda>q. q < length s) qs)) [p]"
    by (simp only: adv.simps f)
  moreover have "set (star_closure (Suc (length s)) (\<lambda>qs. map Suc (filter (\<lambda>q. q < length s) qs)) [p])
      = {p..min (p + Suc (length s)) (length s)}"
    by (rule star_closure_any) (simp_all add: assms)
  ultimately show ?thesis by (simp del: star_closure.simps adv.simps)
qed

lemma code_pattern_fences:
  "code_pattern = Cat (lits fence_open) (Cat (Star (Cls (\<lambda>c. True))) (Cat (lits fence_close) Eps))"
  by (simp add: code_pattern_def seq_def fence_open_def fence_close_def)

lemma length_fences: "length fence_open = 7" "length fence_close = 3"
  by (simp_all add: fence_open_def fence_close_def)

lemma adv_code_pattern:
  "adv code_pattern s ps
     = adv (lits fence_close) s (adv (Star (Cls (\<lambda>c. True))) s (adv (lits fence_open) s ps))"
  by (simp only: code_pattern_fences adv.simps)

lemma adv_star_Nil: "adv (Star r) s [] = []"
proof -
  have "adv r s [] = []" by (induction r) simp_all
  then show ?thesis by (simp only: adv.simps star_closure_Nil)
qed

lemma adv_code_pattern_no_open:
  assumes "\<not> prefix fence_open (drop p s)"
  shows "adv code_pattern s [p] = []"
proof -
  have "adv (lits fence_open) s [p] = []" using assms by (simp add: adv_lits)
  then show ?thesis by (simp only: adv_code_pattern adv_star_Nil) (simp add: adv_lits)
qed

lemma adv_code_pattern_open:
  assumes "prefix fence_open (drop p s)"
  shows "set (adv code_pattern s [p])
     = {q + 3 | q. p + 7 \<le> q \<and> q \<le> length s \<and> prefix fence_close (drop q s)}"
proof -
  from assms have "length fence_open \<le> length (drop p s)" by (rule prefix_length_le)
  then have le: "p + 7 \<le> length s" by (simp add: length_fences)
  have "adv (lits fence_open) s [p] = [p + 7]"
    using assms by (simp add: adv_lits length_fences)
  then have "adv code_pattern s [p]
      = adv (lits fence_close) s (adv (Star (Cls (\<lambda>c. True))) s [p + 7])"
    by (simp only: adv_code_pattern)
  then have "set (adv code_pattern s [p])
      = (\<lambda>q. q + 3) ` {q \<in> set (adv (Star (Cls (\<lambda>c. True))) s [p + 7]). prefix fence_close (drop q s)}"
    by (simp only: adv_lits length_fences set_map set_filter)
  also have "\<dots> = {q + 3 | q. p + 7 \<le> q \<and> q \<le> length s \<and> prefix fence_close (drop q s)}"
    unfolding adv_star_any [OF le] by auto
  finally show ?thesis .
qed

lemma first_match_None:
  assumes "\<And>p. pos \<le> p \<Longrightarrow> p \<le> length s \<Longrightarrow> adv r s [p] = []"
  shows "first_match r s pos = None"
proof -
  have "find (\<lambda>p. adv r s [p] \<noteq> []) [pos ..< Suc (length s)] = None"
    by (simp add: find_None_iff assms del: upt_Suc)
  then show ?thesis by (simp add: first_match_def)
qed

lemma first_match_Some:
  assumes "pos \<le> p" and "p \<le> length s" and "adv r s [p] \<noteq> []"
    and "\<And>p'. pos \<le> p' \<Longrightarrow> p' < p \<Longrightarrow> adv r s [p'] = []"
  shows "first_match r s pos = Some (p, Min (set (adv r s [p])))"
proof -
  have "find (\<lambda>p. adv r s [p] \<noteq> []) [pos ..< Suc (length s)] = Some p"
    unfolding find_Some_iff
  proof (intro exI [of _ "p - pos"] conjI allI impI)
    show "p - pos < length [pos..<Suc (length s)]" using assms(1,2) by (simp del: upt_Suc)
    show "adv r s [[pos..<Suc (length s)] ! (p - pos)] \<noteq> []"
      using assms(1,2,3) by (simp del: upt_Suc)
    show "p = [pos..<Suc (length s)] ! (p - pos)" using assms(1,2) by (simp del: upt_Suc)
  next
    fix j assume "j < p - pos"
    then have "[pos..<Suc (length s)] ! j = pos + j" and "pos + j < p"
      using assms(2) by (simp_all del: upt_Suc)
    then show "\<not> adv r s [[pos..<Suc (length s)] ! j] \<noteq> []" using assms(4) [of "pos + j"] by simp
  qed
  then show ?thesis by (simp add: first_match_def)
qed

lemma str_contains_sublist: "str_contains w s = sublist w s"
  by (induction s) (simp_all add: sublist_Cons_right)

lemma prefix_before_char:
  assumes "prefix w (x @ c # y)" and "c \<notin> set w"
  shows "prefix w x"
proof -
  from assms(1) have "prefix w x \<or> (\<exists>us. w = x @ us \<and> prefix us (c # y))"
    by (simp add: prefix_append)
  then show ?thesis
  proof
    assume "prefix w x" then show ?thesis .
  next
    assume "\<exists>us. w = x @ us \<and> prefix us (c # y)"
    then obtain us where w: "w = x @ us" and us: "prefix us (c # y)" by blast
    show ?thesis
    proof (cases us)
      case Nil
      with w show ?thesis by simp
    next
      case (Cons u us')
      with us have "u = c" by simp
      with Cons w assms(2) show ?thesis by simp
    qed
  qed
qed

lemma prefix_drop_sublist: "prefix w (drop p s) \<Longrightarrow> sublist w s"
proof -
  assume "prefix w (drop p s)"
  then have "sublist w (drop p s)" by (rule prefix_imp_sublist)
  moreover have "sublist (drop p s) s" by (rule sublist_drop)
  ultimately show ?thesis by (rule sublist_order.order_trans)
qed

lemma occurrence_before_char:
  assumes "prefix w (drop p (x @ c # y))" and "p \<le> length x" and "c \<notin> set w"
  shows "sublist w x"
proof -
  from assms(1,2) have "prefix w (drop p x @ c # y)" by simp
  then have "prefix w (drop p x)" using assms(3) by (rule prefix_before_char)
  then show ?thesis by (rule prefix_drop_sublist)
qed

lemma fence_open_close: "fence_open = fence_close @ ''cpp'' @ [NL]"
  by (simp add: fence_open_def fence_close_def)

lemma prefix_open_close: "prefix fence_open z \<Longrightarrow> prefix fence_close z"
  unfolding fence_open_close by (rule append_prefixD)

lemma fence_chars: "CHR '' '' \<notin> set fence_close" "NL \<notin> set fence_close"
  by (simp_all add: fence_close_def NL_def)

lemma fenced_response_parts:
  "fenced_response pre cd suf = pre @ CHR '' '' # (fence_open @ cd @ NL # (fence_close @ CHR '' '' # suf))"
  by (simp add: fenced_response_def fence_open_def fence_close_def)

lemma fenced_response_at_open:
  "drop (length pre + 1) (fenced_response pre cd suf)
     = fence_open @ cd @ NL # (fence_close @ CHR '' '' # suf)"
  by (simp add: fenced_response_parts)

lemma drop_after_length: "length a = n \<Longrightarrow> drop (n + k) (a @ b) = drop k b"
  by simp

lemma fenced_response_at_code:
  "drop (length pre + 8 + k) (fenced_response pre cd suf)
     = drop k (cd @ NL # (fence_close @ CHR '' '' # suf))"
proof -
  have "fenced_response pre cd suf
      = (pre @ CHR '' '' # fence_open) @ (cd @ NL # (fence_close @ CHR '' '' # suf))"
    by (simp add: fenced_response_parts)
  moreover have "length (pre @ CHR '' '' # fence_open) = length pre + 8"
    by (simp add: length_fences)
  ultimately show ?thesis by (simp only: drop_after_length)
qed

lemma fenced_response_at_close:
  "drop (length pre + 9 + length cd) (fenced_response pre cd suf) = fence_close @ CHR '' '' # suf"
  using fenced_response_at_code [of pre "Suc (length cd)" cd suf] by (simp add: add_ac)

lemma fenced_response_after:
  "drop (length pre + 12 + length cd + k) (fenced_response pre cd suf) = drop k (CHR '' '' # suf)"
proof -
  have "drop (length pre + 12 + length cd + k) (fenced_response pre cd suf)
      = drop (3 + k) (drop (length pre + 9 + length cd) (fenced_response pre cd suf))"
    by (simp add: add_ac)
  then show ?thesis by (simp add: fenced_response_at_close length_fences)
qed

lemma length_fenced_response:
  "length (fenced_response pre cd suf) = length pre + 13 + length cd + length suf"
  by (simp add: fenced_response_parts length_fences)

lemma no_open_in_prefix:
  assumes "\<not> sublist fence_close pre" and "p \<le> length pre"
  shows "\<not> prefix fence_open (drop p (fenced_response pre cd suf))"
proof
  assume "prefix fence_open (drop p (fenced_response pre cd suf))"
  then have "prefix fence_close (drop p (fenced_response pre cd suf))" by (rule prefix_open_close)
  then have "sublist fence_close pre"
    unfolding fenced_response_parts using assms(2) fence_chars(1) by (rule occurrence_before_char)
  with assms(1) show False ..
qed

lemma no_close_in_code:
  assumes "\<not> sublist fence_close cd" and "k \<le> length cd"
  shows "\<not> prefix fence_close (drop (length pre + 8 + k) (fenced_response pre cd suf))"
proof
  assume "prefix fence_close (drop (length pre + 8 + k) (fenced_response pre cd suf))"
  then have "prefix fence_close (drop k (cd @ NL # (fence_close @ CHR '' '' # suf)))"
    by (simp only: fenced_response_at_code)
  then have "sublist fence_close cd"
    using assms(2) fence_chars(2) by (rule occurrence_before_char)
  with assms(1) show False ..
qed

lemma no_open_in_suffix:
  assumes "\<not> sublist fence_close suf"
  shows "\<not> prefix fence_open (drop (length pre + 12 + length cd + k) (fenced_response pre cd suf))"
proof
  assume "prefix fence_open (drop (length pre + 12 + length cd + k) (fenced_response pre cd suf))"
  then have "prefix fence_close (drop (length pre + 12 + length cd + k) (fenced_response pre cd suf))"
    by (rule prefix_open_close)
  then have c: "prefix fence_close (drop k (CHR '' '' # suf))"
    by (simp only: fenced_response_after)
  show False
  proof (cases k)
    case 0
    with c show False by (simp add: fence_close_def)
  next
    case (Suc k')
    with c have "prefix fence_close (drop k' suf)" by simp
    then have "sublist fence_close suf" by (rule prefix_drop_sublist)
    with assms show False ..
  qed
qed

lemma open_at_fence:
  "prefix fence_open (drop (length pre + 1) (fenced_response pre cd suf))"
  by (simp only: fenced_response_at_open prefix_def) blast

lemma close_at_fence:
  "prefix fence_close (drop (length pre + 9 + length cd) (fenced_response pre cd suf))"
  by (simp only: fenced_response_at_close prefix_def) blast

lemma match_ends_fenced_response:
  assumes "\<not> sublist fence_close cd"
  shows "set (adv code_pattern (fenced_response pre cd suf) [length pre + 1]) \<noteq> {}
     \<and> Min (set (adv code_pattern (fenced_response pre cd suf) [length pre + 1]))
         = length pre + 12 + length cd"
proof -
  let ?S = "fenced_response pre cd suf"
  let ?E = "set (adv code_pattern ?S [length pre + 1])"
  have E: "?E = {q + 3 | q. length pre + 1 + 7 \<le> q \<and> q \<le> length ?S \<and> prefix fence_close (drop q ?S)}"
    by (rule adv_code_pattern_open [OF open_at_fence])
  have mem: "length pre + 12 + length cd \<in> ?E"
  proof -
    have "length pre + 12 + length cd = (length pre + 9 + length cd) + 3" by simp
    moreover have "length pre + 1 + 7 \<le> length pre + 9 + length cd" by simp
    moreover have "length pre + 9 + length cd \<le> length ?S"
      by (simp add: length_fenced_response)
    ultimately show ?thesis unfolding E using close_at_fence [of pre cd suf] by blast
  qed
  have low: "length pre + 12 + length cd \<le> e" if "e \<in> ?E" for e
  proof -
    from that obtain q where e: "e = q + 3" and q: "length pre + 8 \<le> q"
      and c: "prefix fence_close (drop q ?S)"
      unfolding E by auto
    have "length pre + 9 + length cd \<le> q"
    proof (rule ccontr)
      assume "\<not> length pre + 9 + length cd \<le> q"
      with q have "q = length pre + 8 + (q - (length pre + 8))"
        and kl: "q - (length pre + 8) \<le> length cd" by arith+
      then obtain k where k: "q = length pre + 8 + k" and kl: "k \<le> length cd" by blast
      from no_close_in_code [OF assms kl, of pre suf] c k show False by simp
    qed
    with e show ?thesis by simp
  qed
  have m: "Min ?E = length pre + 12 + length cd"
  proof (rule Min_eqI)
    show "finite ?E" by (rule finite_set)
    show "length pre + 12 + length cd \<le> e" if "e \<in> ?E" for e using that by (rule low)
    show "length pre + 12 + length cd \<in> ?E" by (rule mem)
  qed
  from mem have ne: "?E \<noteq> {}" by (metis empty_iff)
  from ne m show ?thesis by (rule conjI)
qed

lemma first_match_fenced_response:
  assumes "\<not> sublist fence_close pre" and "\<not> sublist fence_close cd"
  shows "first_match code_pattern (fenced_response pre cd suf) 0
     = Some (length pre + 1, length pre + 12 + length cd)"
proof -
  let ?S = "fenced_response pre cd suf"
  note ends = match_ends_fenced_response [OF assms(2), of pre suf]
  have "first_match code_pattern ?S 0
      = Some (length pre + 1, Min (set (adv code_pattern ?S [length pre + 1])))"
  proof (rule first_match_Some)
    show "0 \<le> length pre + 1" by simp
    show "length pre + 1 \<le> length ?S" by (simp add: length_fenced_response)
    show "adv code_pattern ?S [length pre + 1] \<noteq> []"
      using conjunct1 [OF ends] by (metis list.set(1))
    show "adv code_pattern ?S [p'] = []" if "p' < length pre + 1" for p'
    proof (rule adv_code_pattern_no_open)
      from that have "p' \<le> length pre" by simp
      then show "\<not> prefix fence_open (drop p' ?S)" by (rule no_open_in_prefix [OF assms(1)])
    qed
  qed
  then show ?thesis by (simp only: conjunct2 [OF ends])
qed

lemma no_match_after_fence:
  assumes "\<not> sublist fence_close suf"
  shows "first_match code_pattern (fenced_response pre cd suf) (length pre + 12 + length cd) = None"
proof (rule first_match_None)
  fix p assume "length pre + 12 + length cd \<le> p"
  then obtain k where p: "p = length pre + 12 + length cd + k" by (metis le_Suc_ex)
  show "adv code_pattern (fenced_response pre cd suf) [p] = []"
    unfolding p by (rule adv_code_pattern_no_open) (rule no_open_in_suffix [OF assms])
qed

lemma remove_matches_None: "first_match r s pos = None \<Longrightarrow> remove_matches n r s pos = drop pos s"
  by (cases n) simp_all

lemma re_sub_fenced_response:
  assumes "\<not> sublist fence_close pre" and "\<not> sublist fence_close cd" and "\<not> sublist fence_close suf"
  shows "re_sub_empty code_pattern (fenced_response pre cd suf) = pre @ ''  '' @ suf"
proof -
  let ?S = "fenced_response pre cd suf"
  obtain n where n: "length ?S = Suc n"
    by (metis length_fenced_response add_Suc_right numeral_eq_Suc add_Suc pred_numeral_simps(3))
  have "remove_matches (Suc n) code_pattern ?S 0
      = py_slice ?S 0 (length pre + 1) @ remove_matches n code_pattern ?S (length pre + 12 + length cd)"
    by (simp only: remove_matches.simps first_match_fenced_response [OF assms(1,2)] option.case
        prod.case)
  also have "remove_matches n code_pattern ?S (length pre + 12 + length cd)
      = drop (length pre + 12 + length cd) ?S"
    by (rule remove_matches_None) (rule no_match_after_fence [OF assms(3)])
  also have "drop (length pre + 12 + length cd) ?S = CHR '' '' # suf"
    using fenced_response_after [of pre cd 0 suf] by simp
  also have "py_slice ?S 0 (length pre + 1) = pre @ '' ''"
    by (simp add: py_slice_def fenced_response_parts)
  finally show ?thesis by (simp add: re_sub_empty_def n)
qed

lemma group_fenced_response:
  "py_slice (fenced_response pre cd suf) (length pre + 1 + 7) (length pre + 12 + length cd - 3)
     = cd @ [NL]"
proof -
  have "drop (length pre + 8 + 0) (fenced_response pre cd suf)
      = drop 0 (cd @ NL # (fence_close @ CHR '' '' # suf))"
    by (rule fenced_response_at_code)
  then have "drop (length pre + 8) (fenced_response pre cd suf) = cd @ NL # (fence_close @ CHR '' '' # suf)"
    by simp
  moreover have "length pre + 12 + length cd - 3 - (length pre + 1 + 7) = length cd + 1" by simp
  ultimately show ?thesis by (simp add: py_slice_def add_ac)
qed

lemma is_space_NL: "is_space NL"
  by (simp add: is_space_def NL_def)

lemma strip_snoc_space:
  assumes "is_space c"
  shows "strip (s @ [c]) = strip s"
proof (cases "\<forall>x \<in> set s. is_space x")
  case True
  then have d: "dropWhile is_space (s @ [c]) = []" "dropWhile is_space s = []"
    using assms by (simp_all add: dropWhile_eq_Nil_conv)
  show ?thesis unfolding strip_def d by simp
next
  case False
  then obtain x where "x \<in> set s" and "\<not> is_space x" by blast
  then have "dropWhile is_space (s @ [c]) = dropWhile is_space s @ [c]"
    by (rule dropWhile_append1)
  then show ?thesis using assms by (simp add: strip_def)
qed

lemma sublist_strip: "sublist (strip s) s"
proof -
  have "sublist (dropWhile is_space (rev (dropWhile is_space s))) (rev (dropWhile is_space s))"
    by (rule sublist_dropWhile)
  then have "sublist (strip s) (dropWhile is_space s)"
    by (simp add: strip_def sublist_rev_left)
  moreover have "sublist (dropWhile is_space s) s" by (rule sublist_dropWhile)
  ultimately show ?thesis by (rule sublist_order.order_trans)
qed

lemma strip_id:
  assumes "s \<noteq> []" and "\<not> is_space (hd s)" and "\<not> is_space (last s)"
  shows "strip s = s"
proof -
  from assms(1,2) have "dropWhile is_space s = s" by (cases s) simp_all
  moreover from assms(1,3) have "dropWhile is_space (rev s) = rev s"
    by (cases "rev s") (simp_all add: last_rev [symmetric] hd_rev)
  ultimately show ?thesis by (simp add: strip_def)
qed

lemma sublist_around_char:
  assumes "sublist w (x @ c # y)" and "c \<notin> set w"
  shows "sublist w x \<or> sublist w y"
proof -
  from assms(1) consider "sublist w x" | "sublist w (c # y)"
    | xs1 xs2 where "w = xs1 @ xs2" "suffix xs1 x" "prefix xs2 (c # y)"
    unfolding sublist_append by blast
  then show ?thesis
  proof cases
    case 1
    then show ?thesis ..
  next
    case 2
    then have "prefix w (c # y) \<or> sublist w y" by (simp add: sublist_Cons_right)
    then show ?thesis
    proof
      assume "prefix w (c # y)"
      with assms(2) have "w = []" by (cases w) simp_all
      then show ?thesis by simp
    next
      assume "sublist w y" then show ?thesis ..
    qed
  next
    case 3
    from 3(1,3) assms(2) have "xs2 = []" by (cases xs2) simp_all
    with 3(1,2) have "suffix w x" by simp
    then show ?thesis by blast
  qed
qed

lemma no_fence_in_explanation:
  assumes "\<not> sublist fence_close pre" and "\<not> sublist fence_close suf"
  shows "\<not> sublist fence_close (pre @ ''  '' @ suf)"
proof
  assume "sublist fence_close (pre @ ''  '' @ suf)"
  then have "sublist fence_close (pre @ CHR '' '' # (CHR '' '' # suf))" by simp
  then have "sublist fence_close pre \<or> sublist fence_close (CHR '' '' # suf)"
    using fence_chars(1) by (rule sublist_around_char)
  with assms(1) have "sublist fence_close ([] @ CHR '' '' # suf)" by simp
  then have "sublist fence_close [] \<or> sublist fence_close suf"
    using fence_chars(1) by (rule sublist_around_char)
  with assms(2) show False by (simp add: fence_close_def)
qed

lemma fence_close_literal: "fence_close = ''```''"
  by (simp add: fence_close_def)

lemma extract_fenced_response:
  assumes "\<not> sublist fence_close pre" and "\<not> sublist fence_close cd" and "\<not> sublist fence_close suf"
  shows "extract_code_and_explanation (fenced_response pre cd suf)
     = (strip cd, strip (pre @ ''  '' @ suf))"
proof -
  have "strip (py_slice (fenced_response pre cd suf) (length pre + 1 + 7)
      (length pre + 12 + length cd - 3)) = strip cd"
    by (simp only: group_fenced_response strip_snoc_space [OF is_space_NL])
  then show ?thesis
    by (simp only: extract_code_and_explanation_def first_match_fenced_response [OF assms(1,2)]
        option.case prod.case re_sub_fenced_response [OF assms])
qed

text \<open>
  C8, as stated: for a response \<open>prefix ```cpp\nCODE\n``` suffix\<close> whose three parts hold no
  fence and none of which holds the text of another, the explanation contains the prefix
  and the suffix. The explanation is trimmed, so a prefix that starts with white space is
  not contained in it: below, the prefix starts with a space.
\<close>

theorem explanation_loses_leading_space:
  "\<not> str_contains ''```'' '' Improved:'' \<and> \<not> str_contains ''```'' ''int x = 0;''
   \<and> \<not> str_contains ''```'' ''Done.''
   \<and> \<not> str_contains '' Improved:'' ''int x = 0;'' \<and> \<not> str_contains '' Improved:'' ''Done.''
   \<and> \<not> str_contains ''int x = 0;'' '' Improved:'' \<and> \<not> str_contains ''int x = 0;'' ''Done.''
   \<and> \<not> str_contains ''Done.'' '' Improved:'' \<and> \<not> str_contains ''Done.'' ''int x = 0;''
   \<and> extract_code_and_explanation (fenced_response '' Improved:'' ''int x = 0;'' ''Done.'')
       = (''int x = 0;'', ''Improved:  Done.'')
   \<and> \<not> str_contains '' Improved:'' ''Improved:  Done.''"
  by code_simp

text \<open>
  C8, amended: for a response \<open>prefix ```cpp\nCODE\n``` suffix\<close> whose three parts hold no
  fence \<open>```\<close>, the improved code is CODE trimmed of white space at both ends, and the
  explanation is the prefix, two spaces and the suffix, trimmed of white space at both
  ends. The explanation holds no fence. It contains the prefix and the suffix when the
  prefix starts and the suffix ends with a character that is not white space. It does not
  contain CODE when CODE does not occur in the prefix, two spaces and the suffix.
\<close>

theorem extract_constructed_response:
  assumes "\<not> str_contains ''```'' pre" and "\<not> str_contains ''```'' cd"
    and "\<not> str_contains ''```'' suf"
  shows "extract_code_and_explanation (fenced_response pre cd suf)
       = (strip cd, strip (pre @ ''  '' @ suf))
     \<and> \<not> str_contains ''```'' (strip (pre @ ''  '' @ suf))
     \<and> (pre \<noteq> [] \<and> \<not> is_space (hd pre) \<and> suf \<noteq> [] \<and> \<not> is_space (last suf) \<longrightarrow>
          str_contains pre (strip (pre @ ''  '' @ suf))
          \<and> str_contains suf (strip (pre @ ''  '' @ suf)))
     \<and> (\<not> str_contains cd (pre @ ''  '' @ suf) \<longrightarrow>
          \<not> str_contains cd (strip (pre @ ''  '' @ suf)))"
proof -
  from assms have nf: "\<not> sublist fence_close pre" "\<not> sublist fence_close cd"
    "\<not> sublist fence_close suf"
    by (simp_all add: str_contains_sublist fence_close_literal)
  have sub: "sublist (strip (pre @ ''  '' @ suf)) (pre @ ''  '' @ suf)" by (rule sublist_strip)
  have 1: "extract_code_and_explanation (fenced_response pre cd suf)
      = (strip cd, strip (pre @ ''  '' @ suf))"
    by (rule extract_fenced_response [OF nf])
  have 2: "\<not> str_contains ''```'' (strip (pre @ ''  '' @ suf))"
  proof
    assume "str_contains ''```'' (strip (pre @ ''  '' @ suf))"
    then have "sublist fence_close (strip (pre @ ''  '' @ suf))"
      by (simp add: str_contains_sublist fence_close_literal)
    then have "sublist fence_close (pre @ ''  '' @ suf)"
      using sub by (rule sublist_order.order_trans)
    with no_fence_in_explanation [OF nf(1,3)] show False ..
  qed
  have 3: "str_contains pre (strip (pre @ ''  '' @ suf)) \<and> str_contains suf (strip (pre @ ''  '' @ suf))"
    if "pre \<noteq> [] \<and> \<not> is_space (hd pre) \<and> suf \<noteq> [] \<and> \<not> is_space (last suf)"
  proof -
    from that have "strip (pre @ ''  '' @ suf) = pre @ ''  '' @ suf"
      by (intro strip_id) simp_all
    moreover have "sublist pre (pre @ ''  '' @ suf)" by (rule sublist_append_rightI)
    moreover have "sublist suf ((pre @ ''  '') @ suf)" by (rule sublist_append_leftI)
    ultimately show ?thesis by (simp add: str_contains_sublist)
  qed
  have 4: "\<not> str_contains cd (strip (pre @ ''  '' @ suf))"
    if "\<not> str_contains cd (pre @ ''  '' @ suf)"
  proof
    assume "str_contains cd (strip (pre @ ''  '' @ suf))"
    then have "sublist cd (strip (pre @ ''  '' @ suf))" by (simp add: str_contains_sublist)
    then have "sublist cd (pre @ ''  '' @ suf)" using sub by (rule sublist_order.order_trans)
    with that show False by (simp add: str_contains_sublist)
  qed
  from 1 2 3 4 show ?thesis by blast
qed

theorem extract_constructed_response_witness:
  "\<not> str_contains ''```'' ''prefix'' \<and> \<not> str_contains ''```'' ''CODE''
   \<and> \<not> str_contains ''```'' ''suffix''
   \<and> extract_code_and_explanation (fenced_response ''prefix'' ''CODE'' ''suffix'')
       = (''CODE'', ''prefix  suffix'')
   \<and> str_contains ''prefix'' ''prefix  suffix'' \<and> str_contains ''suffix'' ''prefix  suffix''
   \<and> \<not> str_contains ''```'' ''prefix  suffix'' \<and> \<not> str_contains ''CODE'' ''prefix  suffix''"
proof -
  have h: "\<not> str_contains ''```'' ''prefix''" "\<not> str_contains ''```'' ''CODE''"
    "\<not> str_contains ''```'' ''suffix''"
    by code_simp+
  have s: "strip ''CODE'' = ''CODE''" "strip (''prefix'' @ ''  '' @ ''suffix'') = ''prefix  suffix''"
    by code_simp+
  have c: "str_contains ''prefix'' ''prefix  suffix''" "str_contains ''suffix'' ''prefix  suffix''"
    "\<not> str_contains ''CODE'' ''prefix  suffix''"
    by code_simp+
  from extract_constructed_response [OF h] have
    "extract_code_and_explanation (fenced_response ''prefix'' ''CODE'' ''suffix'')
       = (strip ''CODE'', strip (''prefix'' @ ''  '' @ ''suffix''))"
    and "\<not> str_contains ''```'' (strip (''prefix'' @ ''  '' @ ''suffix''))"
    by blast+
  with h c show ?thesis by (simp only: s) blast
qed

end
